theory Spec2Isabelle
  imports Complex_Main "HOL-Library.Sublist" "HOL-Library.Multiset"
    "HOL-Library.List_Lexorder" "HOL-Library.Char_ord"
begin

section \<open>bayesbow: a bag-of-words naive Bayes corpus\<close>

text \<open>
  The Go package keeps one mutable value of type \<open>Bow\<close> and updates it in place through
  pointer-receiver methods. Here every method takes the corpus and returns the corpus it
  leaves behind. A Go panic is the left injection of a sum: it carries the kind of panic
  and the corpus as it stands at the moment of the panic, since the updates made before a
  panic stay in the object (nothing is rolled back).

  Go's \<open>int\<close> is modelled by \<open>int\<close>. Every counter grows by one per token or label
  processed, so the 64-bit wrap-around is out of reach of any run.

  The arithmetic of \<open>float64\<close> is not interpreted: conversion, division, addition,
  logarithm, exponential and comparison are the fields of a parameter \<open>fo\<close>, so whatever
  is proved holds for IEEE binary64 as for any other reading of these operations.

  A Go map that is only read and written by key is a partial function. A missing key
  reads as the zero value. Ranging over a map yields its keys in an order the language
  leaves open; the order is taken from a parameter \<open>ro\<close>, one function for each
  \<open>range\<close> statement over a map in the source.
\<close>

subsection \<open>Configuration and stop words\<close>

record Config =
  UseStopWords :: bool
  StopWords :: "string list"
  StopWordClasses :: "string list"

text \<open>\<open>IsStopWord\<close>: an exact match in \<open>StopWords\<close>, or a prefix in \<open>StopWordClasses\<close>.\<close>

definition IsStopWord :: "Config \<Rightarrow> string \<Rightarrow> bool" where
  "IsStopWord conf x =
     (if list_ex (\<lambda>word. x = word) (StopWords conf) then True
      else list_ex (\<lambda>wordClass. prefix wordClass x) (StopWordClasses conf))"

text \<open>The test that makes both token loops skip a token.\<close>

definition skipped :: "Config \<Rightarrow> string \<Rightarrow> bool" where
  "skipped conf word = (word = [] \<or> UseStopWords conf \<and> IsStopWord conf word)"

subsection \<open>The corpus\<close>

record 'f Bow =
  Note :: string
  LabelNames :: "string list"
  LabelCount :: int
  Words :: "string list"
  WordCount :: int
  WordDocCount :: "int \<rightharpoonup> int"
  DocCount :: int
  LWF :: "int \<rightharpoonup> (int \<rightharpoonup> int)"
  LabelWordCount :: "int \<rightharpoonup> int"
  PL :: "'f list"
  LabelDocCount :: "int list"
  idxs :: "string \<rightharpoonup> int"

text \<open>
  In \<open>LWF\<close> the value \<open>None\<close> stands for a label that has no inner map (absent or nil):
  Go reads such an inner map as empty and panics on an assignment into it. The inner maps
  are distinct objects (\<open>New\<close> allocates one per label), so no two labels share one.
\<close>

record 'f float_ops =
  of_int64 :: "int \<Rightarrow> 'f"
  fdiv :: "'f \<Rightarrow> 'f \<Rightarrow> 'f"
  fadd :: "'f \<Rightarrow> 'f \<Rightarrow> 'f"
  flog :: "'f \<Rightarrow> 'f"
  fexp :: "'f \<Rightarrow> 'f"
  fgt :: "'f \<Rightarrow> 'f \<Rightarrow> bool"

record range_order =
  freq_keys :: "(int \<rightharpoonup> int) \<Rightarrow> int list"
  pld_keys :: "int \<Rightarrow> (int \<rightharpoonup> int) \<Rightarrow> int list"
  idxs_keys :: "(string \<rightharpoonup> int) \<Rightarrow> string list"

text \<open>
  \<open>freq_keys\<close> orders the range over \<open>freqWord\<close> in \<open>Add\<close>, \<open>pld_keys labelID\<close> the
  range over \<open>wordFreq\<close> in the \<open>labelID\<close>-th round of \<open>PLD\<close>, \<open>idxs_keys\<close> the range
  over \<open>idxs\<close> in \<open>updateWords\<close>. An order is admissible when it lists every key of a
  finite map exactly once.
\<close>

definition enumerates :: "'k list \<Rightarrow> ('k \<rightharpoonup> 'v) \<Rightarrow> bool" where
  "enumerates ks m = (distinct ks \<and> set ks = dom m)"

definition valid_order :: "range_order \<Rightarrow> bool" where
  "valid_order ro =
     ((\<forall>m. finite (dom m) \<longrightarrow> enumerates (freq_keys ro m) m) \<and>
      (\<forall>l m. finite (dom m) \<longrightarrow> enumerates (pld_keys ro l m) m) \<and>
      (\<forall>m. finite (dom m) \<longrightarrow> enumerates (idxs_keys ro m) m))"

datatype panic = NilMapAssign | IndexOutOfRange | InconsistentCounts | NegativeLen

type_synonym 'f result = "(panic \<times> 'f Bow) + 'f Bow"

definition get0 :: "('k \<rightharpoonup> int) \<Rightarrow> 'k \<Rightarrow> int" where
  "get0 m k = (case m k of None \<Rightarrow> 0 | Some v \<Rightarrow> v)"

definition inner :: "(int \<rightharpoonup> (int \<rightharpoonup> int)) \<Rightarrow> int \<Rightarrow> (int \<rightharpoonup> int)" where
  "inner lwf labelID = (case lwf labelID of None \<Rightarrow> Map.empty | Some m \<Rightarrow> m)"

definition in_range :: "'a list \<Rightarrow> int \<Rightarrow> bool" where
  "in_range xs i = (0 \<le> i \<and> i < int (length xs))"

definition label_ids :: "int \<Rightarrow> int list" where
  "label_ids labelCount = map int [0..<nat labelCount]"

subsection \<open>New\<close>

definition New :: "'f float_ops \<Rightarrow> string \<Rightarrow> string list \<Rightarrow> 'f Bow" where
  "New fo note labelNames =
     (let labelCount = int (length labelNames);
          pl = fold (\<lambda>labelID pl.
                 pl[nat labelID := fdiv fo (of_int64 fo 1) (of_int64 fo labelCount)])
                 (label_ids labelCount) (replicate (nat labelCount) (of_int64 fo 0));
          lwf = fold (\<lambda>labelID lwf. lwf(labelID \<mapsto> Map.empty))
                 (label_ids labelCount) Map.empty
      in \<lparr>Note = note, LabelNames = labelNames, LabelCount = labelCount, Words = [],
          WordCount = 0, WordDocCount = Map.empty, DocCount = 0, LWF = lwf,
          LabelWordCount = Map.empty, PL = pl,
          LabelDocCount = replicate (nat labelCount) 0, idxs = Map.empty\<rparr>)"

subsection \<open>Add\<close>

text \<open>
  The token loop of \<open>Add\<close> (lines 112 to 135): a token that is not skipped is looked up in
  \<open>idxs\<close>, entered there under the current \<open>WordCount\<close> when it is new, appended to
  \<open>seq\<close> and counted in \<open>freqWord\<close>.
\<close>

definition lookup_word :: "'f Bow \<Rightarrow> string \<Rightarrow> 'f Bow" where
  "lookup_word dd word =
     (case idxs dd word of
        None \<Rightarrow> dd\<lparr>idxs := (idxs dd)(word \<mapsto> WordCount dd), WordCount := WordCount dd + 1\<rparr>
      | Some _ \<Rightarrow> dd)"

fun add_tokens ::
  "Config \<Rightarrow> string list \<Rightarrow> 'f Bow \<times> int list \<times> (int \<rightharpoonup> int)
     \<Rightarrow> 'f Bow \<times> int list \<times> (int \<rightharpoonup> int)" where
  "add_tokens conf [] st = st"
| "add_tokens conf (word # ws) (dd, seq, freqWord) =
     (if skipped conf word then add_tokens conf ws (dd, seq, freqWord)
      else
        (let dd1 = lookup_word dd word;
             idx = get0 (idxs dd1) word
         in add_tokens conf ws
              (dd1, seq @ [idx], freqWord(idx \<mapsto> get0 freqWord idx + 1))))"

text \<open>The loop over the labels for one word ID (lines 147 to 157).\<close>

fun count_labels ::
  "(int \<rightharpoonup> int) \<Rightarrow> int \<Rightarrow> int list \<Rightarrow> 'f Bow \<Rightarrow> 'f result" where
  "count_labels freqWord wordID [] dd = Inr dd"
| "count_labels freqWord wordID (labelID # labels) dd =
     (let dd1 = dd\<lparr>WordDocCount :=
                  (WordDocCount dd)(wordID \<mapsto> get0 (WordDocCount dd) wordID + 1)\<rparr>
      in case LWF dd1 labelID of
           None \<Rightarrow> Inl (NilMapAssign, dd1)
         | Some m \<Rightarrow>
            (let dd2 = dd1\<lparr>LWF :=
                         (LWF dd1)(labelID \<mapsto> m(wordID \<mapsto> get0 m wordID + get0 freqWord wordID))\<rparr>;
                 dd3 = dd2\<lparr>LabelWordCount :=
                         (LabelWordCount dd2)(labelID \<mapsto>
                            get0 (LabelWordCount dd2) labelID + get0 freqWord wordID)\<rparr>
             in count_labels freqWord wordID labels dd3))"

text \<open>The loop over the word IDs of the document (lines 142 to 158).\<close>

fun count_words ::
  "(int \<rightharpoonup> int) \<Rightarrow> int list \<Rightarrow> int list \<Rightarrow> 'f Bow \<Rightarrow> 'f result" where
  "count_words freqWord labels [] dd = Inr dd"
| "count_words freqWord labels (wordID # wordIDs) dd =
     (case count_labels freqWord wordID labels dd of
        Inl e \<Rightarrow> Inl e
      | Inr dd1 \<Rightarrow> count_words freqWord labels wordIDs dd1)"

text \<open>The loop over the labels that counts the document (lines 160 to 163).\<close>

fun count_docs :: "int list \<Rightarrow> 'f Bow \<Rightarrow> 'f result" where
  "count_docs [] dd = Inr dd"
| "count_docs (labelID # labels) dd =
     (if in_range (LabelDocCount dd) labelID
      then count_docs labels
             (dd\<lparr>LabelDocCount :=
                   (LabelDocCount dd)[nat labelID := LabelDocCount dd ! nat labelID + 1]\<rparr>)
      else Inl (IndexOutOfRange, dd))"

definition Add ::
  "Config \<Rightarrow> range_order \<Rightarrow> 'f Bow \<Rightarrow> string \<Rightarrow> string list \<Rightarrow> int list \<Rightarrow> 'f result" where
  "Add conf ro dd docid words labels =
     (case add_tokens conf words (dd, [], Map.empty) of
        (dd1, seq, freqWord) \<Rightarrow>
          (let dd2 = dd1\<lparr>DocCount := DocCount dd1 + 1\<rparr>
           in case count_words freqWord labels (freq_keys ro freqWord) dd2 of
                Inl e \<Rightarrow> Inl e
              | Inr dd3 \<Rightarrow> count_docs labels dd3))"

definition WordDocCountOf :: "'f Bow \<Rightarrow> string \<Rightarrow> int" where
  "WordDocCountOf dd word =
     (case idxs dd word of None \<Rightarrow> 0 | Some idx \<Rightarrow> get0 (WordDocCount dd) idx)"

subsection \<open>UpdatePL, PWL, PLD\<close>

fun UpdatePL_loop :: "'f float_ops \<Rightarrow> int list \<Rightarrow> 'f Bow \<Rightarrow> 'f result" where
  "UpdatePL_loop fo [] dd = Inr dd"
| "UpdatePL_loop fo (labelID # labelIDs) dd =
     (if \<not> in_range (LabelDocCount dd) labelID then Inl (IndexOutOfRange, dd)
      else if LabelDocCount dd ! nat labelID + 1 > DocCount dd + LabelCount dd
      then Inl (InconsistentCounts, dd)
      else if \<not> in_range (PL dd) labelID then Inl (IndexOutOfRange, dd)
      else UpdatePL_loop fo labelIDs
             (dd\<lparr>PL := (PL dd)[nat labelID :=
                   fdiv fo (of_int64 fo (LabelDocCount dd ! nat labelID + 1))
                           (of_int64 fo (DocCount dd + LabelCount dd))]\<rparr>))"

definition UpdatePL :: "'f float_ops \<Rightarrow> 'f Bow \<Rightarrow> 'f result" where
  "UpdatePL fo dd = UpdatePL_loop fo (label_ids (LabelCount dd)) dd"

definition PWL :: "'f float_ops \<Rightarrow> 'f Bow \<Rightarrow> int \<Rightarrow> int \<Rightarrow> 'f" where
  "PWL fo dd labelID wordID =
     flog fo (fdiv fo (of_int64 fo (get0 (inner (LWF dd) labelID) wordID + 1))
                      (of_int64 fo (get0 (LabelWordCount dd) labelID + WordCount dd)))"

text \<open>
  The first loop of \<open>PLD\<close> (lines 202 to 209) carries the slice \<open>r\<close> and \<open>sum\<close> (here \<open>sumv\<close>); the
  range over \<open>wordFreq\<close> uses the keys only. The second loop (lines 210 to 212) divides.
  A read or write of a slice outside its length is a panic.
\<close>

fun PLD_scores ::
  "'f float_ops \<Rightarrow> range_order \<Rightarrow> 'f Bow \<Rightarrow> (int \<rightharpoonup> int) \<Rightarrow> int list \<Rightarrow> 'f list \<times> 'f
     \<Rightarrow> panic + ('f list \<times> 'f)" where
  "PLD_scores fo ro dd wordFreq [] (r, sumv) = Inr (r, sumv)"
| "PLD_scores fo ro dd wordFreq (labelID # labelIDs) (r, sumv) =
     (if \<not> in_range (PL dd) labelID \<or> \<not> in_range r labelID then Inl IndexOutOfRange
      else
        (let x = fold (\<lambda>wordID acc. fadd fo acc (PWL fo dd labelID wordID))
                   (pld_keys ro labelID wordFreq) (flog fo (PL dd ! nat labelID));
             y = fexp fo x
         in PLD_scores fo ro dd wordFreq labelIDs (r[nat labelID := y], fadd fo sumv y)))"

fun PLD_normalize :: "'f float_ops \<Rightarrow> 'f \<Rightarrow> int list \<Rightarrow> 'f list \<Rightarrow> panic + 'f list" where
  "PLD_normalize fo sumv [] r = Inr r"
| "PLD_normalize fo sumv (labelID # labelIDs) r =
     (if \<not> in_range r labelID then Inl IndexOutOfRange
      else PLD_normalize fo sumv labelIDs (r[nat labelID := fdiv fo (r ! nat labelID) sumv]))"

definition PLD ::
  "'f float_ops \<Rightarrow> range_order \<Rightarrow> 'f Bow \<Rightarrow> (int \<rightharpoonup> int)
     \<Rightarrow> (panic \<times> 'f Bow) + ('f Bow \<times> 'f list)" where
  "PLD fo ro dd wordFreq =
     (case UpdatePL fo dd of
        Inl e \<Rightarrow> Inl e
      | Inr dd1 \<Rightarrow>
          if LabelCount dd1 < 0 then Inl (NegativeLen, dd1)
          else
            (case PLD_scores fo ro dd1 wordFreq (label_ids (LabelCount dd1))
                    (replicate (nat (LabelCount dd1)) (of_int64 fo 0), of_int64 fo 0) of
               Inl p \<Rightarrow> Inl (p, dd1)
             | Inr (r, sumv) \<Rightarrow>
                 (case PLD_normalize fo sumv (label_ids (LabelCount dd1)) r of
                    Inl p \<Rightarrow> Inl (p, dd1)
                  | Inr r' \<Rightarrow> Inr (dd1, r'))))"

subsection \<open>Predict\<close>

fun predict_tokens ::
  "Config \<Rightarrow> string list \<Rightarrow> 'f Bow \<times> (int \<rightharpoonup> int) \<Rightarrow> 'f Bow \<times> (int \<rightharpoonup> int)" where
  "predict_tokens conf [] st = st"
| "predict_tokens conf (word # ws) (dd, freqWord) =
     (if skipped conf word then predict_tokens conf ws (dd, freqWord)
      else
        (let dd1 = lookup_word dd word;
             wordID = get0 (idxs dd1) word
         in predict_tokens conf ws (dd1, freqWord(wordID \<mapsto> get0 freqWord wordID + 1))))"

fun max_label :: "'f float_ops \<Rightarrow> 'f list \<Rightarrow> int list \<Rightarrow> int \<Rightarrow> panic + int" where
  "max_label fo pld [] maxLabelID = Inr maxLabelID"
| "max_label fo pld (labelID # labelIDs) maxLabelID =
     (if \<not> in_range pld labelID \<or> \<not> in_range pld maxLabelID then Inl IndexOutOfRange
      else max_label fo pld labelIDs
             (if fgt fo (pld ! nat labelID) (pld ! nat maxLabelID) then labelID
              else maxLabelID))"

definition Predict ::
  "'f float_ops \<Rightarrow> Config \<Rightarrow> range_order \<Rightarrow> 'f Bow \<Rightarrow> string list
     \<Rightarrow> (panic \<times> 'f Bow) + ('f Bow \<times> int \<times> 'f list)" where
  "Predict fo conf ro dd words =
     (case predict_tokens conf words (dd, Map.empty) of
        (dd1, freqWord) \<Rightarrow>
          (case PLD fo ro dd1 freqWord of
             Inl e \<Rightarrow> Inl e
           | Inr (dd2, pld) \<Rightarrow>
               (case max_label fo pld (label_ids (LabelCount dd2)) 0 of
                  Inl p \<Rightarrow> Inl (p, dd2)
                | Inr r \<Rightarrow> Inr (dd2, r, pld))))"

subsection \<open>updateWords and Save\<close>

text \<open>
  \<open>updateWords\<close> allocates \<open>len(idxs)\<close> empty strings and writes every word at its ID.
  \<open>Save\<close> calls it first; what \<open>Save\<close> then writes to the file system is outside this
  development, which keeps the effect of \<open>Save\<close> on the corpus.
\<close>

fun write_words :: "(string \<rightharpoonup> int) \<Rightarrow> string list \<Rightarrow> 'f Bow \<Rightarrow> 'f result" where
  "write_words m [] dd = Inr dd"
| "write_words m (word # ws) dd =
     (case m word of
        None \<Rightarrow> write_words m ws dd
      | Some idx \<Rightarrow>
          if in_range (Words dd) idx
          then write_words m ws (dd\<lparr>Words := (Words dd)[nat idx := word]\<rparr>)
          else Inl (IndexOutOfRange, dd))"

definition updateWords :: "range_order \<Rightarrow> 'f Bow \<Rightarrow> 'f result" where
  "updateWords ro dd =
     write_words (idxs dd) (idxs_keys ro (idxs dd))
       (dd\<lparr>Words := replicate (card (dom (idxs dd))) []\<rparr>)"

definition Save :: "range_order \<Rightarrow> 'f Bow \<Rightarrow> 'f result" where
  "Save ro dd = updateWords ro dd"

subsection \<open>Sequences of operations\<close>

datatype op = OpAdd string "string list" "int list" | OpPredict "string list" | OpSave

definition step :: "'f float_ops \<Rightarrow> Config \<Rightarrow> range_order \<Rightarrow> 'f Bow \<Rightarrow> op \<Rightarrow> 'f result" where
  "step fo conf ro dd x =
     (case x of
        OpAdd docid words labels \<Rightarrow> Add conf ro dd docid words labels
      | OpPredict words \<Rightarrow>
          (case Predict fo conf ro dd words of
             Inl e \<Rightarrow> Inl e
           | Inr (dd1, r, pld) \<Rightarrow> Inr dd1)
      | OpSave \<Rightarrow> Save ro dd)"

fun run :: "'f float_ops \<Rightarrow> Config \<Rightarrow> range_order \<Rightarrow> 'f Bow \<Rightarrow> op list \<Rightarrow> 'f result" where
  "run fo conf ro dd [] = Inr dd"
| "run fo conf ro dd (x # xs) =
     (case step fo conf ro dd x of
        Inl e \<Rightarrow> Inl e
      | Inr dd1 \<Rightarrow> run fo conf ro dd1 xs)"

text \<open>The corpus an operation leaves behind, whether it returned or panicked.\<close>

definition left_state :: "'f result \<Rightarrow> 'f Bow" where
  "left_state res = (case res of Inl (p, dd) \<Rightarrow> dd | Inr dd \<Rightarrow> dd)"

subsection \<open>Closed forms of the loops\<close>

text \<open>
  The token loops change the vocabulary only. \<open>vocab_after\<close> is the vocabulary (the map
  and the count) they leave, \<open>ids_of\<close> the word IDs they meet in order, and \<open>tally\<close> the
  frequency map built from those IDs.
\<close>

fun vocab_after ::
  "Config \<Rightarrow> string list \<Rightarrow> (string \<rightharpoonup> int) \<times> int \<Rightarrow> (string \<rightharpoonup> int) \<times> int" where
  "vocab_after conf [] v = v"
| "vocab_after conf (word # ws) (m, n) =
     (if skipped conf word then vocab_after conf ws (m, n)
      else vocab_after conf ws
             (case m word of None \<Rightarrow> (m(word \<mapsto> n), n + 1) | Some _ \<Rightarrow> (m, n)))"

fun ids_of :: "Config \<Rightarrow> string list \<Rightarrow> (string \<rightharpoonup> int) \<times> int \<Rightarrow> int list" where
  "ids_of conf [] v = []"
| "ids_of conf (word # ws) (m, n) =
     (if skipped conf word then ids_of conf ws (m, n)
      else (case m word of
              None \<Rightarrow> n # ids_of conf ws (m(word \<mapsto> n), n + 1)
            | Some i \<Rightarrow> i # ids_of conf ws (m, n)))"

definition tally :: "int list \<Rightarrow> (int \<rightharpoonup> int) \<Rightarrow> (int \<rightharpoonup> int)" where
  "tally ids fw = fold (\<lambda>idx fw. fw(idx \<mapsto> get0 fw idx + 1)) ids fw"

text \<open>The word IDs and the frequency map of a document, as \<open>Add\<close> computes them.\<close>

definition doc_ids :: "Config \<Rightarrow> 'f Bow \<Rightarrow> string list \<Rightarrow> int list" where
  "doc_ids conf dd words = ids_of conf words (idxs dd, WordCount dd)"

definition doc_freq :: "Config \<Rightarrow> 'f Bow \<Rightarrow> string list \<Rightarrow> (int \<rightharpoonup> int)" where
  "doc_freq conf dd words = tally (doc_ids conf dd words) Map.empty"

text \<open>The corpus after the token loop of \<open>Predict\<close>: only the vocabulary has changed.\<close>

definition with_vocab :: "Config \<Rightarrow> 'f Bow \<Rightarrow> string list \<Rightarrow> 'f Bow" where
  "with_vocab conf dd words =
     dd\<lparr>idxs := fst (vocab_after conf words (idxs dd, WordCount dd)),
        WordCount := snd (vocab_after conf words (idxs dd, WordCount dd))\<rparr>"

text \<open>
  One round of the inner loop of \<open>Add\<close> for a word ID and a label that has an inner
  map, as a total function.
\<close>

definition bump :: "(int \<rightharpoonup> int) \<Rightarrow> int \<times> int \<Rightarrow> 'f Bow \<Rightarrow> 'f Bow" where
  "bump freqWord p dd =
     (case p of (wordID, labelID) \<Rightarrow>
        dd\<lparr>WordDocCount := (WordDocCount dd)(wordID \<mapsto> get0 (WordDocCount dd) wordID + 1),
           LWF := (LWF dd)(labelID \<mapsto>
                    (inner (LWF dd) labelID)(wordID \<mapsto>
                       get0 (inner (LWF dd) labelID) wordID + get0 freqWord wordID)),
           LabelWordCount := (LabelWordCount dd)(labelID \<mapsto>
                    get0 (LabelWordCount dd) labelID + get0 freqWord wordID)\<rparr>)"

text \<open>One round of the loop of \<open>Add\<close> that counts the document for a label in range.\<close>

definition inc_at :: "int \<Rightarrow> int list \<Rightarrow> int list" where
  "inc_at l xs = xs[nat l := xs ! nat l + 1]"

text \<open>The corpus that a call of \<open>Add\<close> without a panic returns.\<close>

definition add_result ::
  "Config \<Rightarrow> range_order \<Rightarrow> 'f Bow \<Rightarrow> string list \<Rightarrow> int list \<Rightarrow> 'f Bow" where
  "add_result conf ro dd words labels =
     (let v = vocab_after conf words (idxs dd, WordCount dd);
          fw = doc_freq conf dd words
      in (fold (bump fw) (List.product (freq_keys ro fw) labels)
            (dd\<lparr>idxs := fst v, WordCount := snd v, DocCount := DocCount dd + 1\<rparr>))
          \<lparr>LabelDocCount := fold inc_at labels (LabelDocCount dd)\<rparr>)"

text \<open>
  The prior that \<open>UpdatePL\<close> stores for a label, and the consistency that its guard
  tests: no label has more documents than the corpus plus the smoothing allows.
\<close>

definition prior :: "'f float_ops \<Rightarrow> 'f Bow \<Rightarrow> int \<Rightarrow> 'f" where
  "prior fo dd labelID =
     fdiv fo (of_int64 fo (LabelDocCount dd ! nat labelID + 1))
             (of_int64 fo (DocCount dd + LabelCount dd))"

definition consistent :: "'f Bow \<Rightarrow> bool" where
  "consistent dd = list_all (\<lambda>c. c + 1 \<le> DocCount dd + LabelCount dd) (LabelDocCount dd)"

text \<open>
  The score of a label as the first loop of \<open>PLD\<close> computes it: the logarithm of the
  prior, to which the word likelihoods of the listed word IDs are added one after the
  other, and the exponential of the result. The word IDs come as a list of keys; the
  occurrence counts of the document are no argument.
\<close>

definition log_score :: "'f float_ops \<Rightarrow> 'f Bow \<Rightarrow> int \<Rightarrow> int list \<Rightarrow> 'f" where
  "log_score fo dd labelID wordIDs =
     fold (\<lambda>wordID acc. fadd fo acc (PWL fo dd labelID wordID)) wordIDs
       (flog fo (PL dd ! nat labelID))"

definition score :: "'f float_ops \<Rightarrow> range_order \<Rightarrow> 'f Bow \<Rightarrow> (int \<rightharpoonup> int) \<Rightarrow> int \<Rightarrow> 'f" where
  "score fo ro dd wordFreq labelID =
     fexp fo (log_score fo dd labelID (pld_keys ro labelID wordFreq))"

definition score_total :: "'f float_ops \<Rightarrow> range_order \<Rightarrow> 'f Bow \<Rightarrow> (int \<rightharpoonup> int) \<Rightarrow> 'f" where
  "score_total fo ro dd wordFreq =
     fold (\<lambda>labelID acc. fadd fo acc (score fo ro dd wordFreq labelID))
       (label_ids (LabelCount dd)) (of_int64 fo 0)"

text \<open>The corpus and the vector that \<open>PLD\<close> returns when \<open>UpdatePL\<close> does not panic.\<close>

definition with_priors :: "'f float_ops \<Rightarrow> 'f Bow \<Rightarrow> 'f Bow" where
  "with_priors fo dd = dd\<lparr>PL := map (prior fo dd) (label_ids (LabelCount dd))\<rparr>"

definition posterior :: "'f float_ops \<Rightarrow> range_order \<Rightarrow> 'f Bow \<Rightarrow> (int \<rightharpoonup> int) \<Rightarrow> 'f list" where
  "posterior fo ro dd wordFreq =
     map (\<lambda>labelID. fdiv fo (score fo ro dd wordFreq labelID) (score_total fo ro dd wordFreq))
       (label_ids (LabelCount dd))"

text \<open>The word table that the loop of \<open>updateWords\<close> builds when no index is out of range.\<close>

definition written :: "(string \<rightharpoonup> int) \<Rightarrow> string list \<Rightarrow> string list \<Rightarrow> string list" where
  "written m ks ws = fold (\<lambda>word ws. ws[nat (the (m word)) := word]) ks ws"

subsection \<open>Well-formed corpora, invariants and frames\<close>

text \<open>
  A corpus is well formed when its per-label structures have one entry per label, as
  \<open>New\<close> builds them and every operation keeps them.
\<close>

definition well_formed :: "'f Bow \<Rightarrow> bool" where
  "well_formed dd =
     (0 \<le> LabelCount dd \<and>
      length (LabelDocCount dd) = nat (LabelCount dd) \<and>
      length (PL dd) = nat (LabelCount dd) \<and>
      list_all (\<lambda>labelID. LWF dd labelID \<noteq> None) (label_ids (LabelCount dd)))"

definition labels_ok :: "'f Bow \<Rightarrow> int list \<Rightarrow> bool" where
  "labels_ok dd labels = list_all (\<lambda>labelID. 0 \<le> labelID \<and> labelID < LabelCount dd) labels"

text \<open>
  The sum of \<open>LWF[labelID][wordID]\<close> over the word IDs that the inner map of the label
  holds, and the invariant that links it to \<open>LabelWordCount\<close>.
\<close>

definition lwf_sum :: "'f Bow \<Rightarrow> int \<Rightarrow> int" where
  "lwf_sum dd labelID =
     (\<Sum>wordID \<in> dom (inner (LWF dd) labelID). get0 (inner (LWF dd) labelID) wordID)"

definition sums_ok :: "'f Bow \<Rightarrow> bool" where
  "sums_ok dd =
     (\<forall>labelID. finite (dom (inner (LWF dd) labelID)) \<and>
        lwf_sum dd labelID = get0 (LabelWordCount dd) labelID)"

text \<open>No label counts more documents than the corpus holds.\<close>

definition doc_counts_ok :: "'f Bow \<Rightarrow> bool" where
  "doc_counts_ok dd = list_all (\<lambda>c. c \<le> DocCount dd) (LabelDocCount dd)"

text \<open>
  The vocabulary is sound when the word IDs are \<open>0, \<dots>, WordCount - 1\<close>, each given to
  exactly one word, and the table \<open>Words\<close> agrees with \<open>idxs\<close> as far as it reaches.
\<close>

definition vocab_inv :: "(string \<rightharpoonup> int) \<Rightarrow> int \<Rightarrow> bool" where
  "vocab_inv m n =
     (finite (dom m) \<and> n = int (card (dom m)) \<and> inj_on m (dom m) \<and>
      (\<forall>w i. m w = Some i \<longrightarrow> 0 \<le> i \<and> i < n))"

definition words_agree :: "(string \<rightharpoonup> int) \<Rightarrow> string list \<Rightarrow> bool" where
  "words_agree m ws = (\<forall>i < length ws. m (ws ! i) = Some (int i))"

definition vocab_ok :: "'f Bow \<Rightarrow> bool" where
  "vocab_ok dd = (vocab_inv (idxs dd) (WordCount dd) \<and> words_agree (idxs dd) (Words dd))"

text \<open>The fields that the counting loops of \<open>Add\<close> never write.\<close>

definition counts_only :: "'f Bow \<Rightarrow> 'f Bow \<Rightarrow> bool" where
  "counts_only dd dd' =
     (DocCount dd' = DocCount dd \<and> idxs dd' = idxs dd \<and> WordCount dd' = WordCount dd \<and>
      LabelDocCount dd' = LabelDocCount dd \<and> LabelCount dd' = LabelCount dd \<and>
      LabelNames dd' = LabelNames dd \<and> PL dd' = PL dd \<and> Words dd' = Words dd \<and>
      Note dd' = Note dd)"

text \<open>What \<open>UpdatePL\<close> may change: the entries of \<open>PL\<close>, not its length.\<close>

definition same_but_PL :: "'f Bow \<Rightarrow> 'f Bow \<Rightarrow> bool" where
  "same_but_PL dd dd' =
     (Note dd' = Note dd \<and> LabelNames dd' = LabelNames dd \<and> LabelCount dd' = LabelCount dd \<and>
      Words dd' = Words dd \<and> WordCount dd' = WordCount dd \<and>
      WordDocCount dd' = WordDocCount dd \<and> DocCount dd' = DocCount dd \<and> LWF dd' = LWF dd \<and>
      LabelWordCount dd' = LabelWordCount dd \<and> LabelDocCount dd' = LabelDocCount dd \<and>
      idxs dd' = idxs dd \<and> length (PL dd') = length (PL dd))"

text \<open>The vocabulary and the word table are the same in two corpora.\<close>

definition same_vocab :: "'f Bow \<Rightarrow> 'f Bow \<Rightarrow> bool" where
  "same_vocab dd dd' =
     (idxs dd' = idxs dd \<and> WordCount dd' = WordCount dd \<and> Words dd' = Words dd)"

subsection \<open>Admissible sequences of operations\<close>

text \<open>
  The operations of a run that only adds documents: \<open>Add\<close> with a list of labels that
  is not empty and in range.
\<close>

fun add_op_ok :: "int \<Rightarrow> op \<Rightarrow> bool" where
  "add_op_ok n (OpAdd docid words labels) =
     (labels \<noteq> [] \<and> list_all (\<lambda>labelID. 0 \<le> labelID \<and> labelID < n) labels)"
| "add_op_ok n (OpPredict words) = False"
| "add_op_ok n OpSave = False"

text \<open>
  The operations of a training run: \<open>Add\<close> with a list of labels that is not empty,
  without repetition and in range, and \<open>Predict\<close>.
\<close>

fun train_op_ok :: "int \<Rightarrow> op \<Rightarrow> bool" where
  "train_op_ok n (OpAdd docid words labels) =
     (labels \<noteq> [] \<and> distinct labels \<and>
      list_all (\<lambda>labelID. 0 \<le> labelID \<and> labelID < n) labels)"
| "train_op_ok n (OpPredict words) = True"
| "train_op_ok n OpSave = False"

text \<open>
  The corpus after a sequence of operations, each applied to the corpus its predecessor
  left behind, whether that one returned or panicked.
\<close>

definition after_ops ::
  "'f float_ops \<Rightarrow> Config \<Rightarrow> range_order \<Rightarrow> 'f Bow \<Rightarrow> op list \<Rightarrow> 'f Bow" where
  "after_ops fo conf ro dd ops = fold (\<lambda>x dd. left_state (step fo conf ro dd x)) ops dd"

subsection \<open>Concrete parameters for the examples\<close>

text \<open>
  The examples read \<open>float64\<close> as the reals, range over every map in ascending key
  order and filter no stop word.
\<close>

definition ideal_ops :: "real float_ops" where
  "ideal_ops = \<lparr>of_int64 = real_of_int, fdiv = (\<lambda>a b. a / b), fadd = (\<lambda>a b. a + b),
                flog = ln, fexp = exp, fgt = (\<lambda>a b. a > b)\<rparr>"

definition sorted_order :: range_order where
  "sorted_order = \<lparr>freq_keys = (\<lambda>m. sorted_list_of_set (dom m)),
                   pld_keys = (\<lambda>l m. sorted_list_of_set (dom m)),
                   idxs_keys = (\<lambda>m. sorted_list_of_set (dom m))\<rparr>"

definition conf0 :: Config where
  "conf0 = \<lparr>UseStopWords = False, StopWords = [], StopWordClasses = []\<rparr>"

definition spam_ham :: "real Bow" where
  "spam_ham = New ideal_ops ''note'' [''spam'', ''ham'']"

text \<open>The corpus after \<open>Add\<close> of the document \<open>buy now buy\<close> with the label 0.\<close>

definition trained :: "real Bow" where
  "trained = spam_ham\<lparr>idxs := [''buy'' \<mapsto> 0, ''now'' \<mapsto> 1], WordCount := 2, DocCount := 1,
       WordDocCount := [0 \<mapsto> 1, 1 \<mapsto> 1], LWF := [0 \<mapsto> [0 \<mapsto> 2, 1 \<mapsto> 1], 1 \<mapsto> Map.empty],
       LabelWordCount := [0 \<mapsto> 3], LabelDocCount := [1, 0]\<rparr>"

text \<open>
  A run on the corpus of two labels: a document is added, the corpus saved, a document
  with a new word predicted; then a second document is added and the corpus saved again.
\<close>

definition first_run :: "real Bow" where
  "first_run = after_ops ideal_ops conf0 sorted_order (New ideal_ops ''note'' [''spam'', ''ham''])
     [OpAdd ''d1'' [''buy'', ''now'', ''buy''] [0], OpSave, OpPredict [''cheap'', ''buy'']]"

definition second_run :: "real Bow" where
  "second_run = after_ops ideal_ops conf0 sorted_order first_run
     [OpAdd ''d2'' [''hello''] [1], OpSave]"

section \<open>Proofs\<close>

subsection \<open>Maps, token loops and the vocabulary\<close>

lemma get0_upd_same [simp]: "get0 (m(k \<mapsto> v)) k = v"
  by (simp add: get0_def)

lemma get0_upd_other [simp]: "k' \<noteq> k \<Longrightarrow> get0 (m(k \<mapsto> v)) k' = get0 m k'"
  by (simp add: get0_def)

lemma get0_Some: "m k = Some v \<Longrightarrow> get0 m k = v"
  by (simp add: get0_def)

lemma get0_None: "m k = None \<Longrightarrow> get0 m k = 0"
  by (simp add: get0_def)

lemma get0_empty [simp]: "get0 Map.empty k = 0"
  by (simp add: get0_def)

lemma tally_Nil [simp]: "tally [] fw = fw"
  by (simp add: tally_def)

lemma tally_Cons [simp]: "tally (i # ids) fw = tally ids (fw(i \<mapsto> get0 fw i + 1))"
  by (simp add: tally_def)

lemma lookup_word_known: "idxs dd w = Some i \<Longrightarrow> lookup_word dd w = dd"
  by (simp add: lookup_word_def)

lemma lookup_word_new:
  "idxs dd w = None \<Longrightarrow>
   lookup_word dd w = dd\<lparr>idxs := (idxs dd)(w \<mapsto> WordCount dd), WordCount := WordCount dd + 1\<rparr>"
  by (simp add: lookup_word_def)

lemma add_tokens_eq:
  "add_tokens conf ws (dd, seq, fw) =
     (dd\<lparr>idxs := fst (vocab_after conf ws (idxs dd, WordCount dd)),
         WordCount := snd (vocab_after conf ws (idxs dd, WordCount dd))\<rparr>,
      seq @ ids_of conf ws (idxs dd, WordCount dd),
      tally (ids_of conf ws (idxs dd, WordCount dd)) fw)"
proof (induction ws arbitrary: dd seq fw)
  case Nil
  show ?case by simp
next
  case (Cons w ws)
  show ?case
  proof (cases "skipped conf w")
    case True
    then show ?thesis using Cons.IH by simp
  next
    case False
    show ?thesis
    proof (cases "idxs dd w")
      case None
      let ?dd1 = "dd\<lparr>idxs := (idxs dd)(w \<mapsto> WordCount dd), WordCount := WordCount dd + 1\<rparr>"
      have 1: "lookup_word dd w = ?dd1" using None by (rule lookup_word_new)
      have 2: "get0 (idxs ?dd1) w = WordCount dd" by simp
      show ?thesis using False None by (simp only: add_tokens.simps 1 2 Let_def Cons.IH) simp
    next
      case (Some i)
      have 1: "lookup_word dd w = dd" using Some by (rule lookup_word_known)
      have 2: "get0 (idxs dd) w = i" using Some by (rule get0_Some)
      show ?thesis using False Some by (simp only: add_tokens.simps 1 2 Let_def Cons.IH) simp
    qed
  qed
qed

lemma predict_tokens_eq:
  "predict_tokens conf ws (dd, fw) =
     (dd\<lparr>idxs := fst (vocab_after conf ws (idxs dd, WordCount dd)),
         WordCount := snd (vocab_after conf ws (idxs dd, WordCount dd))\<rparr>,
      tally (ids_of conf ws (idxs dd, WordCount dd)) fw)"
proof (induction ws arbitrary: dd fw)
  case Nil
  show ?case by simp
next
  case (Cons w ws)
  show ?case
  proof (cases "skipped conf w")
    case True
    then show ?thesis using Cons.IH by simp
  next
    case False
    show ?thesis
    proof (cases "idxs dd w")
      case None
      let ?dd1 = "dd\<lparr>idxs := (idxs dd)(w \<mapsto> WordCount dd), WordCount := WordCount dd + 1\<rparr>"
      have 1: "lookup_word dd w = ?dd1" using None by (rule lookup_word_new)
      have 2: "get0 (idxs ?dd1) w = WordCount dd" by simp
      show ?thesis using False None by (simp only: predict_tokens.simps 1 2 Let_def Cons.IH) simp
    next
      case (Some i)
      have 1: "lookup_word dd w = dd" using Some by (rule lookup_word_known)
      have 2: "get0 (idxs dd) w = i" using Some by (rule get0_Some)
      show ?thesis using False Some by (simp only: predict_tokens.simps 1 2 Let_def Cons.IH) simp
    qed
  qed
qed

lemma vocab_after_mono:
  "m w = Some i \<Longrightarrow> fst (vocab_after conf ws (m, n)) w = Some i"
proof (induction ws arbitrary: m n)
  case Nil then show ?case by simp
next
  case (Cons a ws)
  have keep: "fst (vocab_after conf ws (m, n)) w = Some i" using Cons.prems by (rule Cons.IH)
  show ?case
  proof (cases "m a")
    case None
    then have "(m(a \<mapsto> n)) w = Some i" using Cons.prems by auto
    then have "fst (vocab_after conf ws (m(a \<mapsto> n), n + 1)) w = Some i" by (rule Cons.IH)
    then show ?thesis using None keep by simp
  next
    case (Some j)
    then show ?thesis using keep by simp
  qed
qed

lemma vocab_after_dom:
  "dom (fst (vocab_after conf ws (m, n))) = dom m \<union> {w \<in> set ws. \<not> skipped conf w}"
proof (induction ws arbitrary: m n)
  case Nil then show ?case by simp
next
  case (Cons a ws)
  show ?case
  proof (cases "skipped conf a")
    case True then show ?thesis by (auto simp: Cons.IH)
  next
    case False
    show ?thesis
    proof (cases "m a")
      case None then show ?thesis using False by (auto simp: Cons.IH split: if_splits)
    next
      case (Some j) then show ?thesis using False by (auto simp: Cons.IH)
    qed
  qed
qed

lemma vocab_after_count_le: "n \<le> snd (vocab_after conf ws (m, n))"
proof (induction ws arbitrary: m n)
  case Nil then show ?case by simp
next
  case (Cons a ws)
  have keep: "n \<le> snd (vocab_after conf ws (m, n))" by (rule Cons.IH)
  show ?case
  proof (cases "m a")
    case None
    have "n + 1 \<le> snd (vocab_after conf ws (m(a \<mapsto> n), n + 1))" by (rule Cons.IH)
    then show ?thesis using None keep by simp
  next
    case (Some i) then show ?thesis using keep by simp
  qed
qed




subsection \<open>The example corpus\<close>

lemma valid_sorted_order: "valid_order sorted_order"
  by (simp add: valid_order_def sorted_order_def enumerates_def)

lemma label_ids_2: "label_ids 2 = [0, 1]"
  by (simp add: label_ids_def numeral_2_eq_2)

lemma spam_ham_eq:
  "spam_ham = \<lparr>Note = ''note'', LabelNames = [''spam'', ''ham''], LabelCount = 2, Words = [],
      WordCount = 0, WordDocCount = Map.empty, DocCount = 0,
      LWF = [0 \<mapsto> Map.empty, 1 \<mapsto> Map.empty],
      LabelWordCount = Map.empty, PL = [1 / 2, 1 / 2], LabelDocCount = [0, 0],
      idxs = Map.empty\<rparr>"
  by (simp add: spam_ham_def New_def label_ids_2 ideal_ops_def numeral_2_eq_2)

lemma not_skipped_conf0: "skipped conf0 w = (w = [])"
  by (simp add: skipped_def conf0_def)


subsection \<open>C10: an empty label list\<close>



subsection \<open>The loops of Add when no label is out of range\<close>

lemma bump_dom_LWF: "dom (LWF (bump fw p dd)) = insert (snd p) (dom (LWF dd))"
  by (cases p) (simp add: bump_def)

lemma fold_bump_dom_LWF: "dom (LWF dd) \<subseteq> dom (LWF (fold (bump fw) ps dd))"
proof (induction ps arbitrary: dd)
  case Nil
  show ?case by simp
next
  case (Cons p ps)
  have "dom (LWF dd) \<subseteq> dom (LWF (bump fw p dd))" by (auto simp: bump_dom_LWF)
  also have "\<dots> \<subseteq> dom (LWF (fold (bump fw) ps (bump fw p dd)))" by (rule Cons.IH)
  finally show ?case by simp
qed

lemma count_labels_step:
  assumes "LWF dd l = Some m"
  shows "count_labels fw w (l # ls) dd = count_labels fw w ls (bump fw (w, l) dd)"
  using assms by (simp add: bump_def inner_def Let_def)

lemma count_labels_ok:
  "set ls \<subseteq> dom (LWF dd) \<Longrightarrow>
   count_labels fw w ls dd = Inr (fold (bump fw) (map (Pair w) ls) dd)"
proof (induction ls arbitrary: dd)
  case Nil
  show ?case by simp
next
  case (Cons l ls)
  from Cons.prems obtain m where m: "LWF dd l = Some m" by auto
  have "set ls \<subseteq> dom (LWF (bump fw (w, l) dd))"
    using Cons.prems by (auto simp: bump_dom_LWF)
  then have "count_labels fw w ls (bump fw (w, l) dd)
      = Inr (fold (bump fw) (map (Pair w) ls) (bump fw (w, l) dd))"
    by (rule Cons.IH)
  then show ?case by (simp only: count_labels_step [OF m]) simp
qed

lemma count_words_ok:
  "set ls \<subseteq> dom (LWF dd) \<Longrightarrow>
   count_words fw ls ks dd = Inr (fold (bump fw) (List.product ks ls) dd)"
proof (induction ks arbitrary: dd)
  case Nil
  show ?case by simp
next
  case (Cons k ks)
  let ?dd1 = "fold (bump fw) (map (Pair k) ls) dd"
  have 1: "count_labels fw k ls dd = Inr ?dd1" using Cons.prems by (rule count_labels_ok)
  have "set ls \<subseteq> dom (LWF ?dd1)"
    using Cons.prems fold_bump_dom_LWF by blast
  then have "count_words fw ls ks ?dd1 = Inr (fold (bump fw) (List.product ks ls) ?dd1)"
    by (rule Cons.IH)
  then show ?case using 1 by simp
qed

lemma in_range_inc_at [simp]: "in_range (inc_at l xs) i = in_range xs i"
  by (simp add: in_range_def inc_at_def)

lemma length_fold_inc_at [simp]: "length (fold inc_at ls xs) = length xs"
  by (induction ls arbitrary: xs) (simp_all add: inc_at_def)

lemma count_docs_ok:
  "list_all (in_range (LabelDocCount dd)) ls \<Longrightarrow>
   count_docs ls dd = Inr (dd\<lparr>LabelDocCount := fold inc_at ls (LabelDocCount dd)\<rparr>)"
proof (induction ls arbitrary: dd)
  case Nil
  show ?case by simp
next
  case (Cons l ls)
  let ?dd1 = "dd\<lparr>LabelDocCount := inc_at l (LabelDocCount dd)\<rparr>"
  have "list_all (in_range (LabelDocCount ?dd1)) ls" using Cons.prems by (simp add: list_all_iff)
  then have "count_docs ls ?dd1 = Inr (?dd1\<lparr>LabelDocCount := fold inc_at ls (LabelDocCount ?dd1)\<rparr>)"
    by (rule Cons.IH)
  moreover have "count_docs (l # ls) dd = count_docs ls ?dd1"
    using Cons.prems unfolding inc_at_def by simp
  ultimately show ?case by simp
qed

lemma bump_frame [simp]:
  "DocCount (bump fw p dd) = DocCount dd"
  "LabelDocCount (bump fw p dd) = LabelDocCount dd"
  "LabelCount (bump fw p dd) = LabelCount dd"
  "LabelNames (bump fw p dd) = LabelNames dd"
  "Note (bump fw p dd) = Note dd"
  "Words (bump fw p dd) = Words dd"
  "WordCount (bump fw p dd) = WordCount dd"
  "idxs (bump fw p dd) = idxs dd"
  "PL (bump fw p dd) = PL dd"
  by (cases p; simp add: bump_def)+

lemma fold_bump_frame [simp]:
  "DocCount (fold (bump fw) ps dd) = DocCount dd"
  "LabelDocCount (fold (bump fw) ps dd) = LabelDocCount dd"
  "LabelCount (fold (bump fw) ps dd) = LabelCount dd"
  "LabelNames (fold (bump fw) ps dd) = LabelNames dd"
  "Note (fold (bump fw) ps dd) = Note dd"
  "Words (fold (bump fw) ps dd) = Words dd"
  "WordCount (fold (bump fw) ps dd) = WordCount dd"
  "idxs (fold (bump fw) ps dd) = idxs dd"
  "PL (fold (bump fw) ps dd) = PL dd"
  by (induction ps arbitrary: dd; simp)+

lemma well_formed_labels_present:
  "well_formed dd \<Longrightarrow> labels_ok dd ls \<Longrightarrow> set ls \<subseteq> dom (LWF dd)"
proof -
  assume w: "well_formed dd" and l: "labels_ok dd ls"
  have "\<And>x. x \<in> set ls \<Longrightarrow> LWF dd x \<noteq> None"
  proof -
    fix x assume "x \<in> set ls"
    then have r: "0 \<le> x" "x < LabelCount dd" using l by (auto simp: labels_ok_def list_all_iff)
    then have "x \<in> set (label_ids (LabelCount dd))"
      by (auto simp: label_ids_def image_iff intro!: bexI[of _ "nat x"])
    then show "LWF dd x \<noteq> None" using w by (auto simp: well_formed_def list_all_iff)
  qed
  then show ?thesis by auto
qed

lemma well_formed_labels_in_range:
  "well_formed dd \<Longrightarrow> labels_ok dd ls \<Longrightarrow> list_all (in_range (LabelDocCount dd)) ls"
  by (auto simp: well_formed_def labels_ok_def list_all_iff in_range_def)

lemma Add_ok:
  assumes "well_formed dd" "labels_ok dd labels"
  shows "Add conf ro dd docid words labels = Inr (add_result conf ro dd words labels)"
proof -
  let ?v = "vocab_after conf words (idxs dd, WordCount dd)"
  let ?fw = "doc_freq conf dd words"
  let ?dd2 = "dd\<lparr>idxs := fst ?v, WordCount := snd ?v, DocCount := DocCount dd + 1\<rparr>"
  let ?dd3 = "fold (bump ?fw) (List.product (freq_keys ro ?fw) labels) ?dd2"
  have p: "set labels \<subseteq> dom (LWF ?dd2)"
    using well_formed_labels_present [OF assms] by simp
  have 1: "count_words ?fw labels (freq_keys ro ?fw) ?dd2 = Inr ?dd3"
    using p by (rule count_words_ok)
  have "list_all (in_range (LabelDocCount ?dd3)) labels"
    using well_formed_labels_in_range [OF assms] by simp
  then have 2: "count_docs labels ?dd3 = Inr (?dd3\<lparr>LabelDocCount := fold inc_at labels (LabelDocCount ?dd3)\<rparr>)"
    by (rule count_docs_ok)
  show ?thesis
    using 1 2 by (simp add: Add_def add_tokens_eq add_result_def doc_freq_def doc_ids_def Let_def)
qed

subsection \<open>C1: WordDocCount counts pairs of document and label\<close>

lemma dom_tally: "dom (tally ids fw) = set ids \<union> dom fw"
  by (induction ids arbitrary: fw) auto

lemma finite_dom_tally: "finite (dom fw) \<Longrightarrow> finite (dom (tally ids fw))"
  by (simp add: dom_tally)









lemma bump_update:
  "bump fw p (dd\<lparr>idxs := a\<rparr>) = (bump fw p dd)\<lparr>idxs := a\<rparr>"
  "bump fw p (dd\<lparr>WordCount := b\<rparr>) = (bump fw p dd)\<lparr>WordCount := b\<rparr>"
  "bump fw p (dd\<lparr>DocCount := c\<rparr>) = (bump fw p dd)\<lparr>DocCount := c\<rparr>"
  "bump fw p (dd\<lparr>LabelDocCount := d\<rparr>) = (bump fw p dd)\<lparr>LabelDocCount := d\<rparr>"
  by (cases p; simp add: bump_def)+

lemma fold_bump_update:
  "fold (bump fw) ps (dd\<lparr>idxs := a\<rparr>) = (fold (bump fw) ps dd)\<lparr>idxs := a\<rparr>"
  "fold (bump fw) ps (dd\<lparr>WordCount := b\<rparr>) = (fold (bump fw) ps dd)\<lparr>WordCount := b\<rparr>"
  "fold (bump fw) ps (dd\<lparr>DocCount := c\<rparr>) = (fold (bump fw) ps dd)\<lparr>DocCount := c\<rparr>"
  "fold (bump fw) ps (dd\<lparr>LabelDocCount := d\<rparr>) = (fold (bump fw) ps dd)\<lparr>LabelDocCount := d\<rparr>"
  by (induction ps arbitrary: dd; simp add: bump_update)+

lemma add_result_eq:
  "add_result conf ro dd words labels =
     (fold (bump (doc_freq conf dd words))
        (List.product (freq_keys ro (doc_freq conf dd words)) labels) dd)
      \<lparr>idxs := fst (vocab_after conf words (idxs dd, WordCount dd)),
       WordCount := snd (vocab_after conf words (idxs dd, WordCount dd)),
       DocCount := DocCount dd + 1,
       LabelDocCount := fold inc_at labels (LabelDocCount dd)\<rparr>"
  by (simp add: add_result_def Let_def fold_bump_update)



lemma well_formed_spam_ham: "well_formed spam_ham"
  by (simp add: well_formed_def spam_ham_eq label_ids_2)

lemma add_tokens_example:
  "add_tokens conf0 [''buy'', ''now'', ''buy''] (spam_ham, [], Map.empty)
     = (spam_ham\<lparr>idxs := [''buy'' \<mapsto> 0, ''now'' \<mapsto> 1], WordCount := 2\<rparr>,
        [0, 1, 0], [0 \<mapsto> 2, 1 \<mapsto> 1])"
  by (simp add: spam_ham_eq not_skipped_conf0 lookup_word_def get0_def Let_def fun_upd_twist)



subsection \<open>C3: LabelWordCount is the sum of the label's word frequencies\<close>

lemma sum_get0_upd:
  assumes "finite (dom m)"
  shows "(\<Sum>k \<in> dom (m(w \<mapsto> get0 m w + n)). get0 (m(w \<mapsto> get0 m w + n)) k)
           = (\<Sum>k \<in> dom m. get0 m k) + n"
proof -
  define m' where "m' = m(w \<mapsto> get0 m w + n)"
  have at: "get0 m' w = get0 m w + n" by (simp add: m'_def)
  have off: "get0 m' k = get0 m k" if "k \<noteq> w" for k using that by (simp add: m'_def)
  have d: "dom m' = insert w (dom m)" by (simp add: m'_def)
  have rest: "(\<Sum>k \<in> dom m - {w}. get0 m' k) = (\<Sum>k \<in> dom m - {w}. get0 m k)"
    by (rule sum.cong) (simp_all add: off)
  have "(\<Sum>k \<in> dom m'. get0 m' k) = get0 m' w + (\<Sum>k \<in> dom m - {w}. get0 m' k)"
    using assms by (simp add: d sum.insert_remove)
  also have "\<dots> = get0 m w + n + (\<Sum>k \<in> dom m - {w}. get0 m k)"
    by (simp only: at rest)
  also have "\<dots> = (\<Sum>k \<in> dom m. get0 m k) + n"
  proof (cases "w \<in> dom m")
    case True
    then show ?thesis using assms by (simp add: sum.remove)
  next
    case False
    then have "get0 m w = 0" "dom m - {w} = dom m" by (auto simp: get0_def split: option.splits)
    then show ?thesis by simp
  qed
  finally show ?thesis by (simp only: m'_def)
qed

lemma inner_upd_same [simp]: "inner (lwf(l \<mapsto> m)) l = m"
  by (simp add: inner_def)

lemma inner_upd_other [simp]: "l' \<noteq> l \<Longrightarrow> inner (lwf(l \<mapsto> m)) l' = inner lwf l'"
  by (simp add: inner_def)

lemma sums_ok_bump: "sums_ok dd \<Longrightarrow> sums_ok (bump fw p dd)"
proof -
  assume ok: "sums_ok dd"
  obtain w l where p: "p = (w, l)" by (cases p)
  let ?m = "inner (LWF dd) l"
  have fin: "finite (dom ?m)" and eq: "lwf_sum dd l = get0 (LabelWordCount dd) l"
    using ok by (simp_all add: sums_ok_def)
  show ?thesis
    unfolding sums_ok_def
  proof (intro allI)
    fix l'
    show "finite (dom (inner (LWF (bump fw p dd)) l')) \<and>
          lwf_sum (bump fw p dd) l' = get0 (LabelWordCount (bump fw p dd)) l'"
    proof (cases "l' = l")
      case True
      have "lwf_sum (bump fw p dd) l = lwf_sum dd l + get0 fw w"
        using sum_get0_upd [OF fin, of w "get0 fw w"] by (simp add: lwf_sum_def bump_def p)
      then show ?thesis using True fin eq by (simp add: bump_def p)
    next
      case False
      then show ?thesis using ok by (simp add: sums_ok_def lwf_sum_def bump_def p)
    qed
  qed
qed

lemma sums_ok_fold_bump: "sums_ok dd \<Longrightarrow> sums_ok (fold (bump fw) ps dd)"
  by (induction ps arbitrary: dd) (simp_all add: sums_ok_bump)

lemma sums_ok_cong:
  "LWF dd' = LWF dd \<Longrightarrow> LabelWordCount dd' = LabelWordCount dd \<Longrightarrow> sums_ok dd' = sums_ok dd"
  by (simp add: sums_ok_def lwf_sum_def)

lemma sums_ok_add_result: "sums_ok dd \<Longrightarrow> sums_ok (add_result conf ro dd words labels)"
proof -
  assume ok: "sums_ok dd"
  let ?dd1 = "fold (bump (doc_freq conf dd words))
        (List.product (freq_keys ro (doc_freq conf dd words)) labels) dd"
  have "sums_ok ?dd1" using ok by (rule sums_ok_fold_bump)
  moreover have "sums_ok (add_result conf ro dd words labels) = sums_ok ?dd1"
    by (rule sums_ok_cong) (simp_all add: add_result_eq)
  ultimately show ?thesis by simp
qed

lemma add_result_frame [simp]:
  "LabelCount (add_result conf ro dd words labels) = LabelCount dd"
  "LabelNames (add_result conf ro dd words labels) = LabelNames dd"
  "Note (add_result conf ro dd words labels) = Note dd"
  "Words (add_result conf ro dd words labels) = Words dd"
  "PL (add_result conf ro dd words labels) = PL dd"
  "DocCount (add_result conf ro dd words labels) = DocCount dd + 1"
  "LabelDocCount (add_result conf ro dd words labels) = fold inc_at labels (LabelDocCount dd)"
  "idxs (add_result conf ro dd words labels) = fst (vocab_after conf words (idxs dd, WordCount dd))"
  "WordCount (add_result conf ro dd words labels) = snd (vocab_after conf words (idxs dd, WordCount dd))"
  by (simp_all add: add_result_eq)

lemma well_formed_add_result:
  "well_formed dd \<Longrightarrow> well_formed (add_result conf ro dd words labels)"
proof -
  assume w: "well_formed dd"
  have "dom (LWF dd) \<subseteq> dom (LWF (add_result conf ro dd words labels))"
    using fold_bump_dom_LWF by (simp add: add_result_eq)
  then have "\<And>l. LWF dd l \<noteq> None \<Longrightarrow> LWF (add_result conf ro dd words labels) l \<noteq> None"
    by blast
  then show ?thesis using w by (simp add: well_formed_def list_all_iff)
qed

lemma fold_upd_empty:
  "fold (\<lambda>l lwf. lwf(l \<mapsto> Map.empty)) ls m l = (if l \<in> set ls then Some Map.empty else m l)"
  by (induction ls arbitrary: m) auto

lemma length_fold_list_update:
  "length (fold (\<lambda>l pl. pl[nat l := c]) ls xs) = length xs"
  by (induction ls arbitrary: xs) simp_all

lemma New_fields:
  "LabelCount (New fo note names) = int (length names)"
  "LabelNames (New fo note names) = names"
  "DocCount (New fo note names) = 0"
  "WordCount (New fo note names) = 0"
  "Words (New fo note names) = []"
  "idxs (New fo note names) = Map.empty"
  "WordDocCount (New fo note names) = Map.empty"
  "LabelWordCount (New fo note names) = Map.empty"
  "LabelDocCount (New fo note names) = replicate (length names) 0"
  "length (PL (New fo note names)) = length names"
  "LWF (New fo note names) l = (if l \<in> set (label_ids (int (length names))) then Some Map.empty else None)"
  by (simp_all add: New_def Let_def fold_upd_empty length_fold_list_update)

lemma well_formed_New: "well_formed (New fo note names)"
  by (simp add: well_formed_def New_fields list_all_iff)

lemma sums_ok_New: "sums_ok (New fo note names)"
  by (simp add: sums_ok_def lwf_sum_def inner_def New_fields)

lemma add_op_ok_step:
  assumes "add_op_ok (LabelCount dd) x" and "well_formed dd" and "sums_ok dd"
  shows "\<exists>dd'. step fo conf ro dd x = Inr dd' \<and> LabelCount dd' = LabelCount dd \<and>
           well_formed dd' \<and> sums_ok dd'"
proof (cases x)
  case (OpAdd docid words labels)
  then have "labels_ok dd labels" using assms(1) by (simp add: labels_ok_def)
  then have "Add conf ro dd docid words labels = Inr (add_result conf ro dd words labels)"
    using assms(2) by (simp add: Add_ok)
  then show ?thesis
    using OpAdd assms(2,3) by (simp add: step_def well_formed_add_result sums_ok_add_result)
next
  case (OpPredict words)
  then show ?thesis using assms(1) by simp
next
  case OpSave
  then show ?thesis using assms(1) by simp
qed

lemma add_ops_run:
  "list_all (add_op_ok (LabelCount dd)) ops \<Longrightarrow> well_formed dd \<Longrightarrow> sums_ok dd \<Longrightarrow>
   \<exists>dd'. run fo conf ro dd ops = Inr dd' \<and> LabelCount dd' = LabelCount dd \<and>
      well_formed dd' \<and> sums_ok dd'"
proof (induction ops arbitrary: dd)
  case Nil
  then show ?case by simp
next
  case (Cons x xs)
  from Cons.prems obtain dd1 where 1: "step fo conf ro dd x = Inr dd1"
    and 2: "LabelCount dd1 = LabelCount dd" and 3: "well_formed dd1" and 4: "sums_ok dd1"
    using add_op_ok_step [of dd x fo conf ro] by auto
  have "list_all (add_op_ok (LabelCount dd1)) xs" using Cons.prems(1) 2 by simp
  from Cons.IH [OF this 3 4] show ?case using 1 2 by auto
qed

text \<open>
  C3. Starting from \<open>New\<close>, every sequence of \<open>Add\<close> calls whose label lists are not
  empty and in range runs without a panic, and in the corpus it leaves, for every label
  ID in \<open>[0, LabelCount)\<close>, the sum of \<open>LWF[labelID][wordID]\<close> over the word IDs of the
  inner map (a finite set) equals \<open>LabelWordCount[labelID]\<close>.
\<close>

theorem label_word_count_is_sum:
  assumes "list_all (add_op_ok (int (length labelNames))) ops"
  shows "\<exists>dd. run fo conf ro (New fo note labelNames) ops = Inr dd \<and>
      LabelCount dd = int (length labelNames) \<and>
      (\<forall>labelID. 0 \<le> labelID \<and> labelID < LabelCount dd \<longrightarrow>
         finite (dom (inner (LWF dd) labelID)) \<and>
         (\<Sum>wordID \<in> dom (inner (LWF dd) labelID). get0 (inner (LWF dd) labelID) wordID)
           = get0 (LabelWordCount dd) labelID)"
proof -
  have "list_all (add_op_ok (LabelCount (New fo note labelNames))) ops"
    using assms by (simp add: New_fields)
  from add_ops_run [OF this well_formed_New sums_ok_New, of fo conf ro]
  show ?thesis by (auto simp: sums_ok_def lwf_sum_def New_fields)
qed

theorem label_word_count_is_sum_witness:
  "list_all (add_op_ok (int (length [''spam'', ''ham''])))
     [OpAdd ''d1'' [''buy'', ''now'', ''buy''] [0], OpAdd ''d2'' [''hello'', ''friend''] [1, 0]] \<and>
   (\<exists>dd. run ideal_ops conf0 sorted_order (New ideal_ops ''note'' [''spam'', ''ham''])
           [OpAdd ''d1'' [''buy'', ''now'', ''buy''] [0], OpAdd ''d2'' [''hello'', ''friend''] [1, 0]]
         = Inr dd \<and>
      (\<Sum>wordID \<in> dom (inner (LWF dd) 0). get0 (inner (LWF dd) 0) wordID)
         = get0 (LabelWordCount dd) 0 \<and>
      (\<Sum>wordID \<in> dom (inner (LWF dd) 1). get0 (inner (LWF dd) 1) wordID)
         = get0 (LabelWordCount dd) 1)"
proof -
  let ?ops = "[OpAdd ''d1'' [''buy'', ''now'', ''buy''] [0], OpAdd ''d2'' [''hello'', ''friend''] [1, 0]]"
  have h: "list_all (add_op_ok (int (length [''spam'', ''ham'']))) ?ops" by simp
  from label_word_count_is_sum [OF h, of ideal_ops conf0 sorted_order "''note''"]
  obtain dd where a: "run ideal_ops conf0 sorted_order (New ideal_ops ''note'' [''spam'', ''ham'']) ?ops = Inr dd"
    and b: "LabelCount dd = int (length [''spam'', ''ham''])"
    and c: "\<forall>labelID. 0 \<le> labelID \<and> labelID < LabelCount dd \<longrightarrow>
         finite (dom (inner (LWF dd) labelID)) \<and>
         (\<Sum>wordID \<in> dom (inner (LWF dd) labelID). get0 (inner (LWF dd) labelID) wordID)
           = get0 (LabelWordCount dd) labelID"
    by blast
  have "(0::int) \<le> 0 \<and> 0 < LabelCount dd" "(0::int) \<le> 1 \<and> 1 < LabelCount dd"
    using b by simp_all
  then have "(\<Sum>wordID \<in> dom (inner (LWF dd) 0). get0 (inner (LWF dd) 0) wordID)
         = get0 (LabelWordCount dd) 0"
    "(\<Sum>wordID \<in> dom (inner (LWF dd) 1). get0 (inner (LWF dd) 1) wordID)
         = get0 (LabelWordCount dd) 1"
    using c by blast+
  then show ?thesis using h a by blast
qed


subsection \<open>C2: one call with two labels against two calls with one label\<close>









lemma ids_of_final:
  "ids_of conf ws (m, n)
     = map (\<lambda>w. the (fst (vocab_after conf ws (m, n)) w)) (filter (\<lambda>w. \<not> skipped conf w) ws)"
proof (induction ws arbitrary: m n)
  case Nil
  show ?case by simp
next
  case (Cons a ws)
  show ?case
  proof (cases "skipped conf a")
    case True
    then show ?thesis using Cons.IH by simp
  next
    case False
    show ?thesis
    proof (cases "m a")
      case None
      let ?v = "(m(a \<mapsto> n), n + 1)"
      have 1: "ids_of conf (a # ws) (m, n) = n # ids_of conf ws ?v"
        using False None by simp
      have 2: "vocab_after conf (a # ws) (m, n) = vocab_after conf ws ?v"
        using False None by simp
      have 3: "the (fst (vocab_after conf ws ?v) a) = n"
        using vocab_after_mono [of "m(a \<mapsto> n)" a n conf ws "n + 1"] by simp
      have 4: "ids_of conf ws ?v
          = map (\<lambda>w. the (fst (vocab_after conf ws ?v) w)) (filter (\<lambda>w. \<not> skipped conf w) ws)"
        by (rule Cons.IH)
      show ?thesis unfolding 1 2 using False 3 4 by simp
    next
      case (Some i)
      have 1: "ids_of conf (a # ws) (m, n) = i # ids_of conf ws (m, n)"
        using False Some by simp
      have 2: "vocab_after conf (a # ws) (m, n) = vocab_after conf ws (m, n)"
        using False Some by simp
      have 3: "the (fst (vocab_after conf ws (m, n)) a) = i"
        using vocab_after_mono [of m a i conf ws n] Some by simp
      have 4: "ids_of conf ws (m, n)
          = map (\<lambda>w. the (fst (vocab_after conf ws (m, n)) w)) (filter (\<lambda>w. \<not> skipped conf w) ws)"
        by (rule Cons.IH)
      show ?thesis unfolding 1 2 using False 3 4 by simp
    qed
  qed
qed








subsection \<open>C4: a label out of range\<close>

lemma counts_only_refl: "counts_only dd dd"
  by (simp add: counts_only_def)

lemma counts_only_trans: "counts_only a b \<Longrightarrow> counts_only b c \<Longrightarrow> counts_only a c"
  by (simp add: counts_only_def)

lemma count_labels_frame: "counts_only dd (left_state (count_labels fw w ls dd))"
proof (induction ls arbitrary: dd)
  case Nil
  show ?case by (simp add: left_state_def counts_only_refl)
next
  case (Cons l ls)
  let ?dd1 = "dd\<lparr>WordDocCount := (WordDocCount dd)(w \<mapsto> get0 (WordDocCount dd) w + 1)\<rparr>"
  show ?case
  proof (cases "LWF dd l")
    case None
    then have "count_labels fw w (l # ls) dd = Inl (NilMapAssign, ?dd1)" by simp
    then show ?thesis by (simp add: left_state_def counts_only_def)
  next
    case (Some m)
    have "counts_only dd (bump fw (w, l) dd)" by (simp add: counts_only_def)
    moreover have "counts_only (bump fw (w, l) dd)
        (left_state (count_labels fw w ls (bump fw (w, l) dd)))" by (rule Cons.IH)
    ultimately show ?thesis
      by (simp only: count_labels_step [OF Some]) (rule counts_only_trans)
  qed
qed

lemma count_words_frame: "counts_only dd (left_state (count_words fw ls ks dd))"
proof (induction ks arbitrary: dd)
  case Nil
  show ?case by (simp add: left_state_def counts_only_refl)
next
  case (Cons k ks)
  have 1: "counts_only dd (left_state (count_labels fw k ls dd))" by (rule count_labels_frame)
  show ?case
  proof (cases "count_labels fw k ls dd")
    case (Inl e)
    then show ?thesis using 1 by (simp add: left_state_def)
  next
    case (Inr dd1)
    then have "counts_only dd dd1" using 1 by (simp add: left_state_def)
    moreover have "counts_only dd1 (left_state (count_words fw ls ks dd1))" by (rule Cons.IH)
    ultimately show ?thesis using Inr by (simp add: counts_only_trans)
  qed
qed









subsection \<open>C8: the order of the tokens\<close>





















subsection \<open>UpdatePL and PLD on a consistent corpus\<close>

lemma in_range_nat: "in_range xs l \<Longrightarrow> nat l < length xs"
  by (auto simp: in_range_def)

lemma in_range_label_ids:
  "length xs = nat n \<Longrightarrow> l \<in> set (label_ids n) \<Longrightarrow> in_range xs l"
  by (auto simp: label_ids_def in_range_def)

lemma in_range_update [simp]: "in_range (xs[i := x]) l = in_range xs l"
  by (simp add: in_range_def)

lemma fold_update_length [simp]:
  "length (fold (\<lambda>l r. r[nat l := g l (r ! nat l)]) ls r) = length r"
  by (induction ls arbitrary: r) simp_all

lemma fold_update_upt:
  "k \<le> length r \<Longrightarrow>
   fold (\<lambda>l r. r[nat l := g l (r ! nat l)]) (map int [0..<k]) r
     = map (\<lambda>i. g (int i) (r ! i)) [0..<k] @ drop k r"
proof (induction k)
  case 0
  show ?case by simp
next
  case (Suc k)
  let ?F = "\<lambda>l r. r[nat l := g l (r ! nat l)]"
  let ?pre = "map (\<lambda>i. g (int i) (r ! i)) [0..<k]"
  have k: "k < length r" using Suc.prems by simp
  have ih: "fold ?F (map int [0..<k]) r = ?pre @ drop k r" using Suc by simp
  have d: "drop k r = r ! k # drop (Suc k) r" using k by (rule Cons_nth_drop_Suc [symmetric])
  have "fold ?F (map int [0..<Suc k]) r = ?F (int k) (fold ?F (map int [0..<k]) r)"
    by simp
  also have "\<dots> = (?pre @ drop k r)[k := g (int k) ((?pre @ drop k r) ! k)]"
    by (simp only: ih nat_int)
  also have "(?pre @ drop k r) ! k = r ! k" by (simp add: nth_append d)
  also have "(?pre @ drop k r)[k := g (int k) (r ! k)] = ?pre @ (g (int k) (r ! k) # drop (Suc k) r)"
    by (simp add: list_update_append d)
  finally show ?case by simp
qed

lemma fold_update_label_ids:
  "length r = nat n \<Longrightarrow>
   fold (\<lambda>l r. r[nat l := g l (r ! nat l)]) (label_ids n) r
     = map (\<lambda>l. g l (r ! nat l)) (label_ids n)"
  using fold_update_upt [of "nat n" r g] by (simp add: label_ids_def comp_def)

lemma UpdatePL_loop_frame: "same_but_PL dd (left_state (UpdatePL_loop fo ls dd))"
proof (induction ls arbitrary: dd)
  case Nil
  show ?case by (simp add: left_state_def same_but_PL_def)
next
  case (Cons l ls)
  let ?dd1 = "dd\<lparr>PL := (PL dd)[nat l := prior fo dd l]\<rparr>"
  show ?case
  proof (cases "in_range (LabelDocCount dd) l \<and>
      \<not> LabelDocCount dd ! nat l + 1 > DocCount dd + LabelCount dd \<and> in_range (PL dd) l")
    case True
    then have "UpdatePL_loop fo (l # ls) dd = UpdatePL_loop fo ls ?dd1"
      by (simp add: prior_def)
    moreover have "same_but_PL ?dd1 (left_state (UpdatePL_loop fo ls ?dd1))" by (rule Cons.IH)
    ultimately show ?thesis by (simp add: same_but_PL_def)
  next
    case False
    then have "left_state (UpdatePL_loop fo (l # ls) dd) = dd"
      by (auto simp: left_state_def)
    then show ?thesis by (simp add: same_but_PL_def)
  qed
qed

lemma UpdatePL_loop_ok:
  assumes "list_all (\<lambda>l. in_range (LabelDocCount dd) l \<and> in_range (PL dd) l \<and>
              LabelDocCount dd ! nat l + 1 \<le> DocCount dd + LabelCount dd) ls"
  shows "UpdatePL_loop fo ls dd
           = Inr (dd\<lparr>PL := fold (\<lambda>l pl. pl[nat l := prior fo dd l]) ls (PL dd)\<rparr>)"
  using assms
proof (induction ls arbitrary: dd)
  case Nil
  show ?case by simp
next
  case (Cons l ls)
  let ?dd1 = "dd\<lparr>PL := (PL dd)[nat l := prior fo dd l]\<rparr>"
  have 1: "UpdatePL_loop fo (l # ls) dd = UpdatePL_loop fo ls ?dd1"
    using Cons.prems by (simp add: prior_def)
  have "list_all (\<lambda>l. in_range (LabelDocCount ?dd1) l \<and> in_range (PL ?dd1) l \<and>
              LabelDocCount ?dd1 ! nat l + 1 \<le> DocCount ?dd1 + LabelCount ?dd1) ls"
    using Cons.prems by simp
  then have "UpdatePL_loop fo ls ?dd1
      = Inr (?dd1\<lparr>PL := fold (\<lambda>l pl. pl[nat l := prior fo ?dd1 l]) ls (PL ?dd1)\<rparr>)"
    by (rule Cons.IH)
  moreover have "prior fo ?dd1 = prior fo dd" by (simp add: prior_def fun_eq_iff)
  ultimately show ?case using 1 by simp
qed

lemma UpdatePL_ok:
  assumes "well_formed dd" and "consistent dd"
  shows "UpdatePL fo dd = Inr (dd\<lparr>PL := map (prior fo dd) (label_ids (LabelCount dd))\<rparr>)"
proof -
  let ?ls = "label_ids (LabelCount dd)"
  have len: "length (LabelDocCount dd) = nat (LabelCount dd)" "length (PL dd) = nat (LabelCount dd)"
    using assms(1) by (simp_all add: well_formed_def)
  have "list_all (\<lambda>l. in_range (LabelDocCount dd) l \<and> in_range (PL dd) l \<and>
              LabelDocCount dd ! nat l + 1 \<le> DocCount dd + LabelCount dd) ?ls"
    unfolding list_all_iff
  proof
    fix l assume l: "l \<in> set ?ls"
    have r: "in_range (LabelDocCount dd) l" "in_range (PL dd) l"
      using len l by (simp_all add: in_range_label_ids)
    then have "LabelDocCount dd ! nat l \<in> set (LabelDocCount dd)"
      by (simp add: in_range_nat)
    then have "LabelDocCount dd ! nat l + 1 \<le> DocCount dd + LabelCount dd"
      using assms(2) by (simp add: consistent_def list_all_iff)
    then show "in_range (LabelDocCount dd) l \<and> in_range (PL dd) l \<and>
              LabelDocCount dd ! nat l + 1 \<le> DocCount dd + LabelCount dd" using r by simp
  qed
  then have "UpdatePL_loop fo ?ls dd
           = Inr (dd\<lparr>PL := fold (\<lambda>l pl. pl[nat l := prior fo dd l]) ?ls (PL dd)\<rparr>)"
    by (rule UpdatePL_loop_ok)
  moreover have "fold (\<lambda>l pl. pl[nat l := prior fo dd l]) ?ls (PL dd) = map (prior fo dd) ?ls"
    using fold_update_label_ids [OF len(2), of "\<lambda>l x. prior fo dd l"] by simp
  ultimately show ?thesis by (simp add: UpdatePL_def)
qed

lemma PLD_scores_ok:
  "list_all (\<lambda>l. in_range (PL dd) l \<and> in_range r l) ls \<Longrightarrow>
   PLD_scores fo ro dd wordFreq ls (r, s)
     = Inr (fold (\<lambda>l r. r[nat l := score fo ro dd wordFreq l]) ls r,
            fold (\<lambda>l acc. fadd fo acc (score fo ro dd wordFreq l)) ls s)"
proof (induction ls arbitrary: r s)
  case Nil
  show ?case by simp
next
  case (Cons l ls)
  let ?y = "score fo ro dd wordFreq l"
  let ?r1 = "r[nat l := ?y]"
  have "list_all (\<lambda>k. in_range (PL dd) k \<and> in_range ?r1 k) ls"
    using Cons.prems by simp
  then have "PLD_scores fo ro dd wordFreq ls (?r1, fadd fo s ?y)
     = Inr (fold (\<lambda>l r. r[nat l := score fo ro dd wordFreq l]) ls ?r1,
            fold (\<lambda>l acc. fadd fo acc (score fo ro dd wordFreq l)) ls (fadd fo s ?y))"
    by (rule Cons.IH)
  then show ?case using Cons.prems by (simp add: score_def log_score_def Let_def)
qed

lemma PLD_normalize_ok:
  "list_all (in_range r) ls \<Longrightarrow>
   PLD_normalize fo s ls r = Inr (fold (\<lambda>l r. r[nat l := fdiv fo (r ! nat l) s]) ls r)"
proof (induction ls arbitrary: r)
  case Nil
  show ?case by simp
next
  case (Cons l ls)
  have "list_all (in_range (r[nat l := fdiv fo (r ! nat l) s])) ls"
    using Cons.prems by (simp add: list_all_iff)
  from Cons.IH [OF this] Cons.prems show ?case by simp
qed

lemma max_label_ok:
  "list_all (in_range pld) ls \<Longrightarrow> in_range pld m \<or> ls = [] \<Longrightarrow>
   \<exists>k. max_label fo pld ls m = Inr k"
proof (induction ls arbitrary: m)
  case Nil
  show ?case by simp
next
  case (Cons l ls)
  let ?m' = "if fgt fo (pld ! nat l) (pld ! nat m) then l else m"
  have r: "in_range pld l" "in_range pld m" using Cons.prems by simp_all
  then have "in_range pld ?m' \<or> ls = []" by simp
  moreover have "list_all (in_range pld) ls" using Cons.prems by simp
  ultimately obtain k where "max_label fo pld ls ?m' = Inr k" using Cons.IH by blast
  then show ?case using r by simp
qed

lemma length_label_ids [simp]: "length (label_ids n) = nat n"
  by (simp add: label_ids_def)

lemma nth_label_ids: "l \<in> set (label_ids n) \<Longrightarrow> label_ids n ! nat l = l"
  by (auto simp: label_ids_def)

lemma nat_label_ids: "l \<in> set (label_ids n) \<Longrightarrow> nat l < nat n"
  by (auto simp: label_ids_def)

lemma PLD_ok:
  assumes "well_formed dd" and "consistent dd"
  shows "PLD fo ro dd wordFreq
           = Inr (with_priors fo dd, posterior fo ro (with_priors fo dd) wordFreq)"
proof -
  let ?n = "LabelCount dd"
  let ?ls = "label_ids ?n"
  let ?dd1 = "with_priors fo dd"
  let ?r0 = "replicate (nat ?n) (of_int64 fo 0)"
  let ?sc = "score fo ro ?dd1 wordFreq"
  let ?tot = "score_total fo ro ?dd1 wordFreq"
  have n0: "\<not> ?n < 0" using assms(1) by (simp add: well_formed_def)
  have u: "UpdatePL fo dd = Inr ?dd1"
    using assms by (simp add: UpdatePL_ok with_priors_def)
  have lc: "LabelCount ?dd1 = ?n" and lp: "length (PL ?dd1) = nat ?n"
    by (simp_all add: with_priors_def)
  have "list_all (\<lambda>l. in_range (PL ?dd1) l \<and> in_range ?r0 l) ?ls"
    by (simp add: list_all_iff in_range_label_ids lp)
  then have 1: "PLD_scores fo ro ?dd1 wordFreq ?ls (?r0, of_int64 fo 0)
      = Inr (fold (\<lambda>l r. r[nat l := ?sc l]) ?ls ?r0, ?tot)"
    by (simp add: PLD_scores_ok score_total_def lc)
  have 2: "fold (\<lambda>l r. r[nat l := ?sc l]) ?ls ?r0 = map ?sc ?ls"
    using fold_update_label_ids [of ?r0 ?n "\<lambda>l x. ?sc l"] by simp
  have "list_all (in_range (map ?sc ?ls)) ?ls"
    by (simp add: list_all_iff in_range_label_ids)
  then have 3: "PLD_normalize fo ?tot ?ls (map ?sc ?ls)
      = Inr (fold (\<lambda>l r. r[nat l := fdiv fo (r ! nat l) ?tot]) ?ls (map ?sc ?ls))"
    by (rule PLD_normalize_ok)
  have "fold (\<lambda>l r. r[nat l := fdiv fo (r ! nat l) ?tot]) ?ls (map ?sc ?ls)
      = map (\<lambda>l. fdiv fo (map ?sc ?ls ! nat l) ?tot) ?ls"
    using fold_update_label_ids [of "map ?sc ?ls" ?n "\<lambda>l x. fdiv fo x ?tot"] by simp
  also have "\<dots> = map (\<lambda>l. fdiv fo (?sc l) ?tot) ?ls"
  proof (rule map_cong)
    fix l assume l: "l \<in> set ?ls"
    then have "nat l < nat ?n" by (rule nat_label_ids)
    then have "nat l < length ?ls" by (simp only: length_label_ids)
    then have "map ?sc ?ls ! nat l = ?sc (?ls ! nat l)" by (rule nth_map)
    then show "fdiv fo (map ?sc ?ls ! nat l) ?tot = fdiv fo (?sc l) ?tot"
      using l by (simp add: nth_label_ids)
  qed simp
  finally have 4: "fold (\<lambda>l r. r[nat l := fdiv fo (r ! nat l) ?tot]) ?ls (map ?sc ?ls)
      = posterior fo ro ?dd1 wordFreq"
    by (simp add: posterior_def lc)
  show ?thesis
    using n0 by (simp add: PLD_def u lc 1 2 3 4)
qed

lemma PLD_frame:
  "PLD fo ro dd wordFreq = Inl (p, dd') \<or> PLD fo ro dd wordFreq = Inr (dd', r) \<Longrightarrow>
   same_but_PL dd dd'"
proof -
  assume a: "PLD fo ro dd wordFreq = Inl (p, dd') \<or> PLD fo ro dd wordFreq = Inr (dd', r)"
  have f: "same_but_PL dd (left_state (UpdatePL fo dd))"
    unfolding UpdatePL_def by (rule UpdatePL_loop_frame)
  show ?thesis
  proof (cases "UpdatePL fo dd")
    case (Inl e)
    then have "PLD fo ro dd wordFreq = Inl e" by (simp add: PLD_def)
    then have "e = (p, dd')" using a by auto
    then show ?thesis using f Inl by (simp add: left_state_def)
  next
    case (Inr dd1)
    then have "dd' = dd1" using a
      by (auto simp: PLD_def split: if_splits sum.splits prod.splits)
    then show ?thesis using f Inr by (simp add: left_state_def)
  qed
qed


subsection \<open>C9: Predict leaves the statistics alone\<close>

lemma Predict_eq:
  "Predict fo conf ro dd words =
     (case PLD fo ro (with_vocab conf dd words) (doc_freq conf dd words) of
        Inl e \<Rightarrow> Inl e
      | Inr (dd2, pld) \<Rightarrow>
          (case max_label fo pld (label_ids (LabelCount dd2)) 0 of
             Inl p \<Rightarrow> Inl (p, dd2)
           | Inr r \<Rightarrow> Inr (dd2, r, pld)))"
  by (simp add: Predict_def predict_tokens_eq with_vocab_def doc_freq_def doc_ids_def)

lemma Predict_frame:
  assumes "Predict fo conf ro dd words = Inl (p, dd') \<or>
           Predict fo conf ro dd words = Inr (dd', r, pld)"
  shows "same_but_PL (with_vocab conf dd words) dd'"
proof -
  let ?dd1 = "with_vocab conf dd words"
  let ?fw = "doc_freq conf dd words"
  show ?thesis
  proof (cases "PLD fo ro ?dd1 ?fw")
    case (Inl e)
    then have "Predict fo conf ro dd words = Inl e" by (simp add: Predict_eq)
    then have "PLD fo ro ?dd1 ?fw = Inl (p, dd')" using assms Inl by auto
    then show ?thesis using PLD_frame by blast
  next
    case (Inr x)
    obtain dd2 pld2 where x: "x = (dd2, pld2)" by (cases x)
    have "dd' = dd2" using assms Inr x by (auto simp: Predict_eq split: sum.splits)
    then have "PLD fo ro ?dd1 ?fw = Inr (dd', pld2)" using Inr x by simp
    then show ?thesis using PLD_frame by blast
  qed
qed

lemma well_formed_with_vocab [simp]: "well_formed (with_vocab conf dd words) = well_formed dd"
  by (simp add: well_formed_def with_vocab_def)

lemma consistent_with_vocab [simp]: "consistent (with_vocab conf dd words) = consistent dd"
  by (simp add: consistent_def with_vocab_def)

lemma length_posterior [simp]: "length (posterior fo ro dd wordFreq) = nat (LabelCount dd)"
  by (simp add: posterior_def)

lemma Predict_ok:
  assumes "well_formed dd" and "consistent dd"
  shows "\<exists>r. Predict fo conf ro dd words
           = Inr (with_priors fo (with_vocab conf dd words), r,
                  posterior fo ro (with_priors fo (with_vocab conf dd words)) (doc_freq conf dd words))"
proof -
  let ?dd1 = "with_vocab conf dd words"
  let ?dd2 = "with_priors fo ?dd1"
  let ?fw = "doc_freq conf dd words"
  let ?pld = "posterior fo ro ?dd2 ?fw"
  let ?ls = "label_ids (LabelCount ?dd2)"
  have 1: "PLD fo ro ?dd1 ?fw = Inr (?dd2, ?pld)"
    using assms by (simp add: PLD_ok)
  have len: "length ?pld = nat (LabelCount ?dd2)" by simp
  have a: "list_all (in_range ?pld) ?ls"
    using len by (simp add: list_all_iff in_range_label_ids)
  have "in_range ?pld 0 \<or> ?ls = []"
  proof (cases "?ls = []")
    case False
    then have "0 < LabelCount ?dd2" by (simp add: label_ids_def)
    then show ?thesis by (simp add: in_range_def)
  qed simp
  with a obtain k where "max_label fo ?pld ?ls 0 = Inr k" using max_label_ok by blast
  then show ?thesis using 1 by (simp add: Predict_eq)
qed

text \<open>
  C9. Whatever the corpus and the tokens, the corpus that \<open>Predict\<close> leaves (on return
  as on a panic of \<open>UpdatePL\<close>) has the \<open>DocCount\<close>, \<open>LabelDocCount\<close>, \<open>LWF\<close>,
  \<open>LabelWordCount\<close>, \<open>WordDocCount\<close>, \<open>LabelNames\<close> and \<open>LabelCount\<close> it had before. The
  vocabulary can only grow: the IDs already given are kept, the tokens that are not skipped
  are known afterwards and \<open>WordCount\<close> does not decrease. On a well-formed corpus with
  consistent counts \<open>Predict\<close> returns.
\<close>

theorem predict_keeps_statistics:
  "\<exists>dd'. ((\<exists>p. Predict fo conf ro dd words = Inl (p, dd')) \<or>
           (\<exists>r pld. Predict fo conf ro dd words = Inr (dd', r, pld))) \<and>
      DocCount dd' = DocCount dd \<and> LabelDocCount dd' = LabelDocCount dd \<and>
      LWF dd' = LWF dd \<and> LabelWordCount dd' = LabelWordCount dd \<and>
      WordDocCount dd' = WordDocCount dd \<and> LabelNames dd' = LabelNames dd \<and>
      LabelCount dd' = LabelCount dd \<and>
      (\<forall>w i. idxs dd w = Some i \<longrightarrow> idxs dd' w = Some i) \<and>
      dom (idxs dd') = dom (idxs dd) \<union> {w \<in> set words. \<not> skipped conf w} \<and>
      WordCount dd \<le> WordCount dd' \<and>
      (well_formed dd \<and> consistent dd \<longrightarrow>
         (\<exists>r pld. Predict fo conf ro dd words = Inr (dd', r, pld)))"
proof -
  let ?dd1 = "with_vocab conf dd words"
  let ?P = "Predict fo conf ro dd words"
  have "\<exists>dd'. (\<exists>p. ?P = Inl (p, dd')) \<or> (\<exists>r pld. ?P = Inr (dd', r, pld))"
  proof (cases ?P)
    case (Inl e)
    obtain p d where "e = (p, d)" by (cases e)
    then show ?thesis using Inl by blast
  next
    case (Inr x)
    obtain d r pld where "x = (d, r, pld)" by (cases x)
    then show ?thesis using Inr by blast
  qed
  then obtain dd' where o: "(\<exists>p. ?P = Inl (p, dd')) \<or> (\<exists>r pld. ?P = Inr (dd', r, pld))"
    by blast
  then have f: "same_but_PL ?dd1 dd'" using Predict_frame by blast
  have v: "idxs dd' = fst (vocab_after conf words (idxs dd, WordCount dd))"
    "WordCount dd' = snd (vocab_after conf words (idxs dd, WordCount dd))"
    using f by (simp_all add: same_but_PL_def with_vocab_def)
  have s: "DocCount dd' = DocCount dd" "LabelDocCount dd' = LabelDocCount dd"
    "LWF dd' = LWF dd" "LabelWordCount dd' = LabelWordCount dd"
    "WordDocCount dd' = WordDocCount dd" "LabelNames dd' = LabelNames dd"
    "LabelCount dd' = LabelCount dd"
    using f by (simp_all add: same_but_PL_def with_vocab_def)
  have m: "\<forall>w i. idxs dd w = Some i \<longrightarrow> idxs dd' w = Some i"
    by (simp add: v vocab_after_mono)
  have d: "dom (idxs dd') = dom (idxs dd) \<union> {w \<in> set words. \<not> skipped conf w}"
    by (simp add: v vocab_after_dom)
  have c: "WordCount dd \<le> WordCount dd'" by (simp add: v vocab_after_count_le)
  have r: "\<exists>r pld. ?P = Inr (dd', r, pld)" if wc: "well_formed dd \<and> consistent dd"
  proof -
    obtain k where "?P = Inr (with_priors fo ?dd1, k,
        posterior fo ro (with_priors fo ?dd1) (doc_freq conf dd words))"
      using wc Predict_ok [of dd fo conf ro words] by blast
    then show ?thesis using o by auto
  qed
  show ?thesis using o s m d c r by blast
qed

theorem predict_keeps_statistics_witness:
  "idxs (spam_ham\<lparr>idxs := [''buy'' \<mapsto> 0], WordCount := 1\<rparr>) ''buy'' = Some 0 \<and>
   well_formed (spam_ham\<lparr>idxs := [''buy'' \<mapsto> 0], WordCount := 1\<rparr>) \<and>
   consistent (spam_ham\<lparr>idxs := [''buy'' \<mapsto> 0], WordCount := 1\<rparr>) \<and>
   (\<exists>dd' r pld.
      Predict ideal_ops conf0 sorted_order (spam_ham\<lparr>idxs := [''buy'' \<mapsto> 0], WordCount := 1\<rparr>)
        [''buy'', ''now''] = Inr (dd', r, pld) \<and>
      DocCount dd' = 0 \<and> LabelDocCount dd' = [0, 0] \<and> WordDocCount dd' = Map.empty \<and>
      LabelWordCount dd' = Map.empty \<and> LabelCount dd' = 2 \<and>
      idxs dd' ''buy'' = Some 0 \<and> dom (idxs dd') = {''buy'', ''now''} \<and> 1 \<le> WordCount dd')"
proof -
  let ?dd = "spam_ham\<lparr>idxs := [''buy'' \<mapsto> 0], WordCount := 1\<rparr>"
  have h: "idxs ?dd ''buy'' = Some 0" "well_formed ?dd" "consistent ?dd"
    using well_formed_spam_ham by (simp_all add: well_formed_def consistent_def spam_ham_eq)
  have z: "DocCount ?dd = 0" "LabelDocCount ?dd = [0, 0]" "WordDocCount ?dd = Map.empty"
    "LabelWordCount ?dd = Map.empty" "LabelCount ?dd = 2" "WordCount ?dd = 1"
    "dom (idxs ?dd) \<union> {w \<in> set [''buy'', ''now'']. \<not> skipped conf0 w} = {''buy'', ''now''}"
    by (auto simp: spam_ham_eq not_skipped_conf0)
  from predict_keeps_statistics [of ideal_ops conf0 sorted_order ?dd "[''buy'', ''now'']"]
  obtain dd' where a: "DocCount dd' = DocCount ?dd" "LabelDocCount dd' = LabelDocCount ?dd"
    "WordDocCount dd' = WordDocCount ?dd" "LabelWordCount dd' = LabelWordCount ?dd"
    "LabelCount dd' = LabelCount ?dd"
    and b: "\<forall>w i. idxs ?dd w = Some i \<longrightarrow> idxs dd' w = Some i"
    and c: "dom (idxs dd') = dom (idxs ?dd) \<union> {w \<in> set [''buy'', ''now'']. \<not> skipped conf0 w}"
    and d: "WordCount ?dd \<le> WordCount dd'"
    and e: "well_formed ?dd \<and> consistent ?dd \<longrightarrow>
         (\<exists>r pld. Predict ideal_ops conf0 sorted_order ?dd [''buy'', ''now''] = Inr (dd', r, pld))"
    by blast
  obtain r pld where f: "Predict ideal_ops conf0 sorted_order ?dd [''buy'', ''now''] = Inr (dd', r, pld)"
    using e h by blast
  have g: "idxs dd' ''buy'' = Some 0" using b h(1) by blast
  show ?thesis using h f g a c d unfolding z by blast
qed


subsection \<open>C6: the posterior computed by PLD\<close>

lemma Add_example:
  "Add conf0 sorted_order spam_ham ''d1'' [''buy'', ''now'', ''buy''] [0] = Inr trained"
  apply (simp only: Add_def add_tokens_example)
  apply (simp add: sorted_order_def spam_ham_eq get0_def in_range_def trained_def fun_upd_twist)
  done

lemma valid_order_pld_keys:
  "valid_order ro \<Longrightarrow> finite (dom m) \<Longrightarrow>
   distinct (pld_keys ro l m) \<and> set (pld_keys ro l m) = dom m"
  by (simp add: valid_order_def enumerates_def)

lemma PLD_scores_cong:
  "\<forall>l \<in> set ls. pld_keys ro l m2 = pld_keys ro l m1 \<Longrightarrow>
   PLD_scores fo ro dd m2 ls rs = PLD_scores fo ro dd m1 ls rs"
proof (induction ls arbitrary: rs)
  case Nil
  show ?case by (cases rs) simp
next
  case (Cons l ls)
  obtain r s where rs: "rs = (r, s)" by (cases rs)
  have k: "pld_keys ro l m2 = pld_keys ro l m1" using Cons.prems by simp
  have "\<forall>l \<in> set ls. pld_keys ro l m2 = pld_keys ro l m1" using Cons.prems by simp
  then have "\<And>rs. PLD_scores fo ro dd m2 ls rs = PLD_scores fo ro dd m1 ls rs"
    by (rule Cons.IH)
  then show ?case by (simp add: rs k Let_def)
qed

lemma PLD_cong:
  "\<forall>l. pld_keys ro l m2 = pld_keys ro l m1 \<Longrightarrow> PLD fo ro dd m2 = PLD fo ro dd m1"
proof -
  assume a: "\<forall>l. pld_keys ro l m2 = pld_keys ro l m1"
  have "PLD_scores fo ro d m2 ls rs = PLD_scores fo ro d m1 ls rs" for d ls rs
    by (rule PLD_scores_cong) (simp add: a)
  then show ?thesis by (simp only: PLD_def)
qed

lemma nth_posterior:
  "l \<in> set (label_ids (LabelCount dd)) \<Longrightarrow>
   posterior fo ro dd wordFreq ! nat l
     = fdiv fo (score fo ro dd wordFreq l) (score_total fo ro dd wordFreq)"
proof -
  assume l: "l \<in> set (label_ids (LabelCount dd))"
  let ?f = "\<lambda>labelID. fdiv fo (score fo ro dd wordFreq labelID) (score_total fo ro dd wordFreq)"
  have "nat l < nat (LabelCount dd)" using l by (rule nat_label_ids)
  then have "nat l < length (label_ids (LabelCount dd))" by (simp only: length_label_ids)
  then have "map ?f (label_ids (LabelCount dd)) ! nat l = ?f (label_ids (LabelCount dd) ! nat l)"
    by (rule nth_map)
  then show ?thesis using l by (simp add: posterior_def nth_label_ids)
qed

lemma fold_add_sum:
  "distinct ks \<Longrightarrow> fold (\<lambda>k acc. acc + f k) ks (a::real) = a + (\<Sum>k \<in> set ks. f k)"
  by (induction ks arbitrary: a) (simp_all add: algebra_simps)

lemma log_score_ideal:
  "distinct ks \<Longrightarrow>
   log_score ideal_ops dd labelID ks
     = ln (PL dd ! nat labelID) + (\<Sum>wordID \<in> set ks. PWL ideal_ops dd labelID wordID)"
  by (simp add: log_score_def ideal_ops_def fold_add_sum)

text \<open>
  C6. On a well-formed corpus with consistent counts \<open>PLD\<close> returns, for every frequency
  map: the corpus it returns is the one \<open>UpdatePL\<close> returns, the vector has one entry per
  label, and the entry of a label is the exponential of its score divided by the sum of
  these exponentials over the labels in ascending order, starting from zero. The score is
  the logarithm of \<open>PL[labelID]\<close> plus \<open>PWL(labelID, wordID)\<close> added once for each key of
  \<open>wordFreq\<close>, in the order of the range; the keys come without repetition. The counts
  stored in \<open>wordFreq\<close> are not read: a map with the same keys in the same order gives the
  same result. (Over the reals, \<open>log_score_ideal\<close> turns the fold into a sum over the set
  of keys.)
\<close>

theorem pld_formula:
  assumes "valid_order ro" and "well_formed dd" and "consistent dd" and "finite (dom wordFreq)"
  shows "\<exists>dd1 r. PLD fo ro dd wordFreq = Inr (dd1, r) \<and> UpdatePL fo dd = Inr dd1 \<and>
      length r = nat (LabelCount dd) \<and>
      (\<forall>labelID \<in> set (label_ids (LabelCount dd)).
         distinct (pld_keys ro labelID wordFreq) \<and>
         set (pld_keys ro labelID wordFreq) = dom wordFreq \<and>
         r ! nat labelID =
           fdiv fo
             (fexp fo (fold (\<lambda>wordID acc. fadd fo acc (PWL fo dd1 labelID wordID))
                         (pld_keys ro labelID wordFreq) (flog fo (PL dd1 ! nat labelID))))
             (fold (\<lambda>l acc. fadd fo acc
                      (fexp fo (fold (\<lambda>wordID acc. fadd fo acc (PWL fo dd1 l wordID))
                                  (pld_keys ro l wordFreq) (flog fo (PL dd1 ! nat l)))))
                (label_ids (LabelCount dd)) (of_int64 fo 0))) \<and>
      (\<forall>wordFreq'. (\<forall>l. pld_keys ro l wordFreq' = pld_keys ro l wordFreq) \<longrightarrow>
         PLD fo ro dd wordFreq' = PLD fo ro dd wordFreq)"
proof -
  let ?dd1 = "with_priors fo dd"
  let ?r = "posterior fo ro ?dd1 wordFreq"
  have lc: "LabelCount ?dd1 = LabelCount dd" by (simp add: with_priors_def)
  have 1: "PLD fo ro dd wordFreq = Inr (?dd1, ?r)" using assms(2,3) by (rule PLD_ok)
  have 2: "UpdatePL fo dd = Inr ?dd1"
    using assms(2,3) by (simp add: UpdatePL_ok with_priors_def)
  have 3: "length ?r = nat (LabelCount dd)" by (simp add: lc)
  have 4: "\<forall>labelID \<in> set (label_ids (LabelCount dd)).
         distinct (pld_keys ro labelID wordFreq) \<and>
         set (pld_keys ro labelID wordFreq) = dom wordFreq \<and>
         ?r ! nat labelID =
           fdiv fo
             (fexp fo (fold (\<lambda>wordID acc. fadd fo acc (PWL fo ?dd1 labelID wordID))
                         (pld_keys ro labelID wordFreq) (flog fo (PL ?dd1 ! nat labelID))))
             (fold (\<lambda>l acc. fadd fo acc
                      (fexp fo (fold (\<lambda>wordID acc. fadd fo acc (PWL fo ?dd1 l wordID))
                                  (pld_keys ro l wordFreq) (flog fo (PL ?dd1 ! nat l)))))
                (label_ids (LabelCount dd)) (of_int64 fo 0))"
  proof
    fix labelID assume l: "labelID \<in> set (label_ids (LabelCount dd))"
    then have "labelID \<in> set (label_ids (LabelCount ?dd1))" by (simp only: lc)
    then have "?r ! nat labelID
        = fdiv fo (score fo ro ?dd1 wordFreq labelID) (score_total fo ro ?dd1 wordFreq)"
      by (rule nth_posterior)
    then show "distinct (pld_keys ro labelID wordFreq) \<and>
         set (pld_keys ro labelID wordFreq) = dom wordFreq \<and>
         ?r ! nat labelID =
           fdiv fo
             (fexp fo (fold (\<lambda>wordID acc. fadd fo acc (PWL fo ?dd1 labelID wordID))
                         (pld_keys ro labelID wordFreq) (flog fo (PL ?dd1 ! nat labelID))))
             (fold (\<lambda>l acc. fadd fo acc
                      (fexp fo (fold (\<lambda>wordID acc. fadd fo acc (PWL fo ?dd1 l wordID))
                                  (pld_keys ro l wordFreq) (flog fo (PL ?dd1 ! nat l)))))
                (label_ids (LabelCount dd)) (of_int64 fo 0))"
      using valid_order_pld_keys [OF assms(1,4)]
      by (simp add: score_def score_total_def log_score_def lc)
  qed
  have 5: "\<forall>wordFreq'. (\<forall>l. pld_keys ro l wordFreq' = pld_keys ro l wordFreq) \<longrightarrow>
         PLD fo ro dd wordFreq' = PLD fo ro dd wordFreq"
    using PLD_cong by blast
  show ?thesis using 1 2 3 4 5 by blast
qed

lemma trained_facts:
  "well_formed trained" "consistent trained" "LabelCount trained = 2"
  "LabelDocCount trained = [1, 0]" "DocCount trained = 1" "WordCount trained = 2"
  "LWF trained = [0 \<mapsto> [0 \<mapsto> 2, 1 \<mapsto> 1], 1 \<mapsto> Map.empty]"
  "LabelWordCount trained = [0 \<mapsto> 3]"
  by (simp_all add: trained_def well_formed_def consistent_def spam_ham_eq label_ids_2)

lemma priors_trained: "PL (with_priors ideal_ops trained) = [2 / 3, 1 / 3]"
  by (simp add: with_priors_def trained_facts label_ids_2 prior_def ideal_ops_def)

theorem pld_formula_witness:
  "valid_order sorted_order \<and> well_formed trained \<and> consistent trained \<and>
   finite (dom [0 \<mapsto> (2::int)]) \<and>
   (\<exists>dd1 r. PLD ideal_ops sorted_order trained [0 \<mapsto> 2] = Inr (dd1, r) \<and>
      PL dd1 = [2 / 3, 1 / 3] \<and> r = [12 / 17, 5 / 17]) \<and>
   PLD ideal_ops sorted_order trained [0 \<mapsto> 7] = PLD ideal_ops sorted_order trained [0 \<mapsto> 2]"
proof -
  let ?wf = "[0 \<mapsto> (2::int)]"
  have h: "valid_order sorted_order" "well_formed trained" "consistent trained" "finite (dom ?wf)"
    by (simp_all add: valid_sorted_order trained_facts)
  from pld_formula [OF h, of ideal_ops]
  obtain dd1 r where a: "PLD ideal_ops sorted_order trained ?wf = Inr (dd1, r)"
    and b: "UpdatePL ideal_ops trained = Inr dd1"
    and c: "length r = nat (LabelCount trained)"
    and d: "\<forall>labelID \<in> set (label_ids (LabelCount trained)).
         r ! nat labelID =
           fdiv ideal_ops
             (fexp ideal_ops (fold (\<lambda>wordID acc. fadd ideal_ops acc (PWL ideal_ops dd1 labelID wordID))
                         (pld_keys sorted_order labelID ?wf) (flog ideal_ops (PL dd1 ! nat labelID))))
             (fold (\<lambda>l acc. fadd ideal_ops acc
                      (fexp ideal_ops (fold (\<lambda>wordID acc. fadd ideal_ops acc (PWL ideal_ops dd1 l wordID))
                                  (pld_keys sorted_order l ?wf) (flog ideal_ops (PL dd1 ! nat l)))))
                (label_ids (LabelCount trained)) (of_int64 ideal_ops 0))"
    and e: "\<forall>wordFreq'. (\<forall>l. pld_keys sorted_order l wordFreq' = pld_keys sorted_order l ?wf) \<longrightarrow>
         PLD ideal_ops sorted_order trained wordFreq' = PLD ideal_ops sorted_order trained ?wf"
    by blast
  have dd1: "dd1 = with_priors ideal_ops trained"
    using b by (simp add: UpdatePL_ok [OF h(2,3)] with_priors_def)
  have pl: "PL dd1 = [2 / 3, 1 / 3]" by (simp add: dd1 priors_trained)
  have k: "pld_keys sorted_order l [0 \<mapsto> n] = [0]" for l :: int and n :: int
    by (simp add: sorted_order_def)
  have w: "PWL ideal_ops dd1 0 0 = ln (3 / 5)" "PWL ideal_ops dd1 1 0 = ln (1 / 2)"
    by (simp_all add: PWL_def dd1 with_priors_def trained_facts ideal_ops_def get0_def inner_def)
  have ops: "fdiv ideal_ops = (\<lambda>a b. a / b)" "fadd ideal_ops = (\<lambda>a b. a + b)"
    "flog ideal_ops = ln" "fexp ideal_ops = exp" "of_int64 ideal_ops = real_of_int"
    by (simp_all add: ideal_ops_def)
  have r0: "r ! 0 = 12 / 17" and r1: "r ! 1 = 5 / 17"
    using d by (simp_all add: trained_facts label_ids_2 k w pl ops exp_add)
  have "r = [r ! 0, r ! 1]"
    using c by (cases r; cases "tl r") (auto simp: trained_facts)
  then have r: "r = [12 / 17, 5 / 17]" by (simp only: r0 r1)
  have "\<forall>l. pld_keys sorted_order l [0 \<mapsto> 7] = pld_keys sorted_order l ?wf"
    by (simp only: k) simp
  with e have f: "PLD ideal_ops sorted_order trained [0 \<mapsto> 7] = PLD ideal_ops sorted_order trained ?wf"
    by blast
  have g: "\<exists>dd1 r. PLD ideal_ops sorted_order trained ?wf = Inr (dd1, r) \<and>
      PL dd1 = [2 / 3, 1 / 3] \<and> r = [12 / 17, 5 / 17]"
    using a pl r by blast
  show ?thesis
    by (intro conjI) (rule h g f)+
qed


subsection \<open>C5: UpdatePL on a corpus built by Add and Predict\<close>

lemma inc_at_nth:
  "i < length xs \<Longrightarrow> 0 \<le> l \<Longrightarrow> inc_at l xs ! i = xs ! i + (if l = int i then 1 else 0)"
  by (auto simp: inc_at_def nth_list_update)

lemma length_inc_at [simp]: "length (inc_at l xs) = length xs"
  by (simp add: inc_at_def)

lemma fold_inc_at_nth:
  "distinct ls \<Longrightarrow> \<forall>l \<in> set ls. 0 \<le> l \<Longrightarrow> i < length xs \<Longrightarrow>
   fold inc_at ls xs ! i = xs ! i + (if int i \<in> set ls then 1 else 0)"
proof (induction ls arbitrary: xs)
  case Nil
  show ?case by simp
next
  case (Cons l ls)
  have d: "distinct ls" "l \<notin> set ls" using Cons.prems(1) by simp_all
  have p: "\<forall>l \<in> set ls. 0 \<le> l" "0 \<le> l" using Cons.prems(2) by simp_all
  have i: "i < length (inc_at l xs)" using Cons.prems(3) by simp
  have "fold inc_at (l # ls) xs ! i = fold inc_at ls (inc_at l xs) ! i" by simp
  also have "\<dots> = inc_at l xs ! i + (if int i \<in> set ls then 1 else 0)"
    using d(1) p(1) i by (rule Cons.IH)
  also have "inc_at l xs ! i = xs ! i + (if l = int i then 1 else 0)"
    using Cons.prems(3) p(2) by (rule inc_at_nth)
  finally show ?case using d(2) by auto
qed

lemma doc_counts_ok_add_result:
  assumes "doc_counts_ok dd" and "distinct labels" and "\<forall>l \<in> set labels. 0 \<le> l"
  shows "doc_counts_ok (add_result conf ro dd words labels)"
proof -
  have "fold inc_at labels (LabelDocCount dd) ! i \<le> DocCount dd + 1"
    if i: "i < length (LabelDocCount dd)" for i
  proof -
    have "LabelDocCount dd ! i \<le> DocCount dd"
      using assms(1) i by (simp add: doc_counts_ok_def list_all_length)
    then show ?thesis using fold_inc_at_nth [OF assms(2,3) i] by simp
  qed
  then show ?thesis by (simp add: doc_counts_ok_def list_all_length)
qed

lemma doc_counts_consistent:
  "well_formed dd \<Longrightarrow> doc_counts_ok dd \<Longrightarrow> consistent dd"
proof -
  assume w: "well_formed dd" and d: "doc_counts_ok dd"
  have "c + 1 \<le> DocCount dd + LabelCount dd" if c: "c \<in> set (LabelDocCount dd)" for c
  proof -
    have "0 < length (LabelDocCount dd)" using c by (cases "LabelDocCount dd") auto
    moreover have "length (LabelDocCount dd) = nat (LabelCount dd)"
      using w by (simp add: well_formed_def)
    ultimately have "0 < LabelCount dd" by simp
    moreover have "c \<le> DocCount dd" using d c by (simp add: doc_counts_ok_def list_all_iff)
    ultimately show ?thesis by simp
  qed
  then show ?thesis by (simp add: consistent_def list_all_iff)
qed

lemma well_formed_with_priors: "well_formed dd \<Longrightarrow> well_formed (with_priors fo dd)"
  by (simp add: well_formed_def with_priors_def)

lemma train_op_ok_step:
  assumes "train_op_ok (LabelCount dd) x" and "well_formed dd" and "doc_counts_ok dd"
  shows "\<exists>dd'. step fo conf ro dd x = Inr dd' \<and> LabelCount dd' = LabelCount dd \<and>
           well_formed dd' \<and> doc_counts_ok dd'"
proof (cases x)
  case (OpAdd docid words labels)
  then have l: "labels_ok dd labels" "distinct labels" "\<forall>l \<in> set labels. 0 \<le> l"
    using assms(1) by (simp_all add: labels_ok_def list_all_iff)
  have "Add conf ro dd docid words labels = Inr (add_result conf ro dd words labels)"
    using assms(2) l(1) by (rule Add_ok)
  then show ?thesis
    using OpAdd assms(2,3) l
    by (simp add: step_def well_formed_add_result doc_counts_ok_add_result)
next
  case (OpPredict words)
  let ?dd2 = "with_priors fo (with_vocab conf dd words)"
  have c: "consistent dd" using assms(2,3) by (rule doc_counts_consistent)
  obtain r where "Predict fo conf ro dd words
      = Inr (?dd2, r, posterior fo ro ?dd2 (doc_freq conf dd words))"
    using Predict_ok [OF assms(2) c, of fo conf ro words] by blast
  then have "step fo conf ro dd x = Inr ?dd2" using OpPredict by (simp add: step_def)
  moreover have "well_formed ?dd2" using assms(2) by (simp add: well_formed_with_priors)
  moreover have "doc_counts_ok ?dd2"
    using assms(3) by (simp add: doc_counts_ok_def with_priors_def with_vocab_def)
  moreover have "LabelCount ?dd2 = LabelCount dd" by (simp add: with_priors_def with_vocab_def)
  ultimately show ?thesis by blast
next
  case OpSave
  then show ?thesis using assms(1) by simp
qed

lemma train_ops_run:
  "list_all (train_op_ok (LabelCount dd)) ops \<Longrightarrow> well_formed dd \<Longrightarrow> doc_counts_ok dd \<Longrightarrow>
   \<exists>dd'. run fo conf ro dd ops = Inr dd' \<and> LabelCount dd' = LabelCount dd \<and>
      well_formed dd' \<and> doc_counts_ok dd'"
proof (induction ops arbitrary: dd)
  case Nil
  then show ?case by simp
next
  case (Cons x xs)
  have "train_op_ok (LabelCount dd) x" using Cons.prems(1) by simp
  from train_op_ok_step [OF this Cons.prems(2,3), of fo conf ro]
  obtain dd1 where 1: "step fo conf ro dd x = Inr dd1"
    and 2: "LabelCount dd1 = LabelCount dd" and 3: "well_formed dd1" and 4: "doc_counts_ok dd1"
    by blast
  have "list_all (train_op_ok (LabelCount dd1)) xs" using Cons.prems(1) 2 by simp
  from Cons.IH [OF this 3 4] show ?case using 1 2 by auto
qed

lemma doc_counts_ok_New: "doc_counts_ok (New fo note names)"
  by (simp add: doc_counts_ok_def New_fields list_all_iff)

lemma PL_with_priors_nth:
  "0 \<le> l \<Longrightarrow> l < LabelCount dd \<Longrightarrow> PL (with_priors fo dd) ! nat l = prior fo dd l"
proof -
  assume l: "0 \<le> l" "l < LabelCount dd"
  then have m: "l \<in> set (label_ids (LabelCount dd))"
    by (auto simp: label_ids_def image_iff intro!: bexI [of _ "nat l"])
  then have "nat l < nat (LabelCount dd)" by (rule nat_label_ids)
  then have "nat l < length (label_ids (LabelCount dd))" by (simp only: length_label_ids)
  then have "map (prior fo dd) (label_ids (LabelCount dd)) ! nat l
      = prior fo dd (label_ids (LabelCount dd) ! nat l)" by (rule nth_map)
  then show ?thesis using m by (simp add: with_priors_def nth_label_ids)
qed

text \<open>
  C5. Starting from \<open>New\<close>, every sequence of \<open>Predict\<close> calls and of \<open>Add\<close> calls whose
  label lists are not empty, have no repetition and are in range runs without a panic;
  on the corpus it leaves \<open>UpdatePL\<close> returns, so its fatal branch is not reached, and for
  every label ID in \<open>[0, LabelCount)\<close> the guard
  \<open>LabelDocCount[labelID] + 1 \<le> DocCount + LabelCount\<close> holds and the new \<open>PL[labelID]\<close> is
  the quotient of the conversions of \<open>LabelDocCount[labelID] + 1\<close> and of
  \<open>DocCount + LabelCount\<close>.
\<close>

theorem update_pl_never_fatal:
  assumes "list_all (train_op_ok (int (length labelNames))) ops"
  shows "\<exists>dd dd'. run fo conf ro (New fo note labelNames) ops = Inr dd \<and>
      LabelCount dd = int (length labelNames) \<and> UpdatePL fo dd = Inr dd' \<and>
      (\<forall>labelID. 0 \<le> labelID \<and> labelID < LabelCount dd \<longrightarrow>
         LabelDocCount dd ! nat labelID + 1 \<le> DocCount dd + LabelCount dd \<and>
         PL dd' ! nat labelID =
           fdiv fo (of_int64 fo (LabelDocCount dd ! nat labelID + 1))
                   (of_int64 fo (DocCount dd + LabelCount dd)))"
proof -
  have "list_all (train_op_ok (LabelCount (New fo note labelNames))) ops"
    using assms by (simp add: New_fields)
  from train_ops_run [OF this well_formed_New doc_counts_ok_New, of fo conf ro]
  obtain dd where 1: "run fo conf ro (New fo note labelNames) ops = Inr dd"
    and n: "LabelCount dd = LabelCount (New fo note labelNames)"
    and w: "well_formed dd" and d: "doc_counts_ok dd" by blast
  have n': "LabelCount dd = int (length labelNames)" using n by (simp add: New_fields)
  have c: "consistent dd" using w d by (rule doc_counts_consistent)
  have 2: "UpdatePL fo dd = Inr (with_priors fo dd)"
    using w c by (simp add: UpdatePL_ok with_priors_def)
  have 3: "LabelDocCount dd ! nat l + 1 \<le> DocCount dd + LabelCount dd \<and>
      PL (with_priors fo dd) ! nat l =
           fdiv fo (of_int64 fo (LabelDocCount dd ! nat l + 1))
                   (of_int64 fo (DocCount dd + LabelCount dd))"
    if l: "0 \<le> l \<and> l < LabelCount dd" for l
  proof -
    have "nat l < length (LabelDocCount dd)" using w l by (simp add: well_formed_def)
    then have "LabelDocCount dd ! nat l \<in> set (LabelDocCount dd)" by (rule nth_mem)
    then have "LabelDocCount dd ! nat l + 1 \<le> DocCount dd + LabelCount dd"
      using c by (simp add: consistent_def list_all_iff)
    moreover have "PL (with_priors fo dd) ! nat l = prior fo dd l"
      using l by (simp add: PL_with_priors_nth)
    ultimately show ?thesis by (simp add: prior_def)
  qed
  show ?thesis using 1 n' 2 3 by blast
qed

theorem update_pl_never_fatal_witness:
  "list_all (train_op_ok (int (length [''spam'', ''ham''])))
     [OpAdd ''d1'' [''buy'', ''now'', ''buy''] [0], OpPredict [''buy'', ''cheap''],
      OpAdd ''d2'' [''hello'', ''friend''] [1, 0]] \<and>
   (\<exists>dd dd'. run ideal_ops conf0 sorted_order (New ideal_ops ''note'' [''spam'', ''ham''])
        [OpAdd ''d1'' [''buy'', ''now'', ''buy''] [0], OpPredict [''buy'', ''cheap''],
         OpAdd ''d2'' [''hello'', ''friend''] [1, 0]] = Inr dd \<and>
      UpdatePL ideal_ops dd = Inr dd' \<and>
      LabelDocCount dd ! 0 + 1 \<le> DocCount dd + 2 \<and>
      LabelDocCount dd ! 1 + 1 \<le> DocCount dd + 2 \<and>
      PL dd' ! 0 = real_of_int (LabelDocCount dd ! 0 + 1) / real_of_int (DocCount dd + 2) \<and>
      PL dd' ! 1 = real_of_int (LabelDocCount dd ! 1 + 1) / real_of_int (DocCount dd + 2))"
proof -
  let ?ops = "[OpAdd ''d1'' [''buy'', ''now'', ''buy''] [0], OpPredict [''buy'', ''cheap''],
      OpAdd ''d2'' [''hello'', ''friend''] [1, 0]]"
  have h: "list_all (train_op_ok (int (length [''spam'', ''ham'']))) ?ops" by simp
  from update_pl_never_fatal [OF h, of ideal_ops conf0 sorted_order "''note''"]
  obtain dd dd' where a: "run ideal_ops conf0 sorted_order (New ideal_ops ''note'' [''spam'', ''ham'']) ?ops = Inr dd"
    and n: "LabelCount dd = int (length [''spam'', ''ham''])"
    and b: "UpdatePL ideal_ops dd = Inr dd'"
    and c: "\<forall>labelID. 0 \<le> labelID \<and> labelID < LabelCount dd \<longrightarrow>
         LabelDocCount dd ! nat labelID + 1 \<le> DocCount dd + LabelCount dd \<and>
         PL dd' ! nat labelID =
           fdiv ideal_ops (of_int64 ideal_ops (LabelDocCount dd ! nat labelID + 1))
                   (of_int64 ideal_ops (DocCount dd + LabelCount dd))"
    by blast
  have n2: "LabelCount dd = 2" using n by simp
  have "(0::int) \<le> 0 \<and> 0 < LabelCount dd" "(0::int) \<le> 1 \<and> 1 < LabelCount dd"
    by (simp_all add: n2)
  then have "LabelDocCount dd ! nat 0 + 1 \<le> DocCount dd + LabelCount dd \<and>
         PL dd' ! nat 0 =
           fdiv ideal_ops (of_int64 ideal_ops (LabelDocCount dd ! nat 0 + 1))
                   (of_int64 ideal_ops (DocCount dd + LabelCount dd))"
    "LabelDocCount dd ! nat 1 + 1 \<le> DocCount dd + LabelCount dd \<and>
         PL dd' ! nat 1 =
           fdiv ideal_ops (of_int64 ideal_ops (LabelDocCount dd ! nat 1 + 1))
                   (of_int64 ideal_ops (DocCount dd + LabelCount dd))"
    using c by blast+
  then have d: "LabelDocCount dd ! 0 + 1 \<le> DocCount dd + 2"
      "LabelDocCount dd ! 1 + 1 \<le> DocCount dd + 2"
      "PL dd' ! 0 = real_of_int (LabelDocCount dd ! 0 + 1) / real_of_int (DocCount dd + 2)"
      "PL dd' ! 1 = real_of_int (LabelDocCount dd ! 1 + 1) / real_of_int (DocCount dd + 2)"
    by (simp_all add: n2 ideal_ops_def)
  show ?thesis using h a b d by blast
qed

text \<open>
  The labels of a call must not repeat: with one label, \<open>Add\<close> with the label list
  \<open>[0, 0]\<close> counts two documents for the label and one for the corpus, and the guard of
  \<open>UpdatePL\<close> fires.
\<close>

lemma repeated_label_breaks_guard:
  "\<exists>dd. Add conf0 sorted_order (New ideal_ops ''note'' [''spam'']) ''doc'' [] [0, 0] = Inr dd \<and>
     LabelDocCount dd = [2] \<and> DocCount dd = 1 \<and> LabelCount dd = 1 \<and>
     UpdatePL ideal_ops dd = Inl (InconsistentCounts, dd)"
proof -
  let ?fresh = "New ideal_ops ''note'' [''spam'']"
  have l1: "label_ids 1 = [0]" by (simp add: label_ids_def)
  have w: "well_formed ?fresh" by (rule well_formed_New)
  have l: "labels_ok ?fresh [0, 0]" by (simp add: labels_ok_def New_fields)
  let ?dd = "add_result conf0 sorted_order ?fresh [] [0, 0]"
  have a: "Add conf0 sorted_order ?fresh ''doc'' [] [0, 0] = Inr ?dd" using w l by (rule Add_ok)
  have f: "LabelDocCount ?dd = [2]" "DocCount ?dd = 1" "LabelCount ?dd = 1"
    by (simp_all add: New_fields inc_at_def)
  have "UpdatePL ideal_ops ?dd = Inl (InconsistentCounts, ?dd)"
    by (simp add: UpdatePL_def New_fields l1 in_range_def inc_at_def)
  then show ?thesis using a f by blast
qed


subsection \<open>C7: the vocabulary\<close>

lemma vocab_inv_enter:
  assumes "vocab_inv m n" and "m w = None"
  shows "vocab_inv (m(w \<mapsto> n)) (n + 1)"
proof -
  have f: "finite (dom m)" and c: "n = int (card (dom m))" and i: "inj_on m (dom m)"
    and r: "\<And>v j. m v = Some j \<Longrightarrow> 0 \<le> j \<and> j < n"
    using assms(1) by (auto simp: vocab_inv_def)
  have nw: "w \<notin> dom m" using assms(2) by auto
  have 1: "finite (dom (m(w \<mapsto> n)))" using f by simp
  have 2: "n + 1 = int (card (dom (m(w \<mapsto> n))))" using f nw c by simp
  have 3: "inj_on (m(w \<mapsto> n)) (dom (m(w \<mapsto> n)))"
  proof (rule inj_onI)
    fix x y
    assume x: "x \<in> dom (m(w \<mapsto> n))" and y: "y \<in> dom (m(w \<mapsto> n))"
      and e: "(m(w \<mapsto> n)) x = (m(w \<mapsto> n)) y"
    show "x = y"
    proof (cases "x = w")
      case True
      show ?thesis
      proof (rule ccontr)
        assume "x \<noteq> y"
        then have "m y = Some n" using e True by simp
        then show False using r by fastforce
      qed
    next
      case False
      show ?thesis
      proof (cases "y = w")
        case True
        then have "m x = Some n" using e False by simp
        then show ?thesis using r by fastforce
      next
        case yw: False
        then have "m x = m y" "x \<in> dom m" "y \<in> dom m" using e x y False by auto
        then show ?thesis using i by (auto dest: inj_onD)
      qed
    qed
  qed
  have 4: "\<And>v j. (m(w \<mapsto> n)) v = Some j \<Longrightarrow> 0 \<le> j \<and> j < n + 1"
  proof -
    fix v j assume a: "(m(w \<mapsto> n)) v = Some j"
    show "0 \<le> j \<and> j < n + 1"
    proof (cases "v = w")
      case True
      then show ?thesis using a c by simp
    next
      case False
      then have "m v = Some j" using a by simp
      then show ?thesis using r by fastforce
    qed
  qed
  show ?thesis unfolding vocab_inv_def using 1 2 3 4 by blast
qed

lemma vocab_inv_after:
  "vocab_inv m n \<Longrightarrow>
   vocab_inv (fst (vocab_after conf ws (m, n))) (snd (vocab_after conf ws (m, n)))"
proof (induction ws arbitrary: m n)
  case Nil
  then show ?case by simp
next
  case (Cons a ws)
  have keep: "vocab_inv (fst (vocab_after conf ws (m, n))) (snd (vocab_after conf ws (m, n)))"
    using Cons.prems by (rule Cons.IH)
  show ?case
  proof (cases "skipped conf a")
    case True
    then show ?thesis using keep by simp
  next
    case False
    show ?thesis
    proof (cases "m a")
      case None
      have 0: "vocab_after conf (a # ws) (m, n) = vocab_after conf ws (m(a \<mapsto> n), n + 1)"
        using False None by simp
      have "vocab_inv (m(a \<mapsto> n)) (n + 1)" using Cons.prems None by (rule vocab_inv_enter)
      then show ?thesis unfolding 0 by (rule Cons.IH)
    next
      case (Some i)
      then have "vocab_after conf (a # ws) (m, n) = vocab_after conf ws (m, n)"
        using False by simp
      then show ?thesis using keep by simp
    qed
  qed
qed

lemma words_agree_mono:
  "words_agree m ws \<Longrightarrow> (\<And>w i. m w = Some i \<Longrightarrow> m' w = Some i) \<Longrightarrow> words_agree m' ws"
  by (simp add: words_agree_def)

lemma vocab_ok_with_vocab: "vocab_ok dd \<Longrightarrow> vocab_ok (with_vocab conf dd words)"
proof -
  assume a: "vocab_ok dd"
  have 1: "vocab_inv (idxs (with_vocab conf dd words)) (WordCount (with_vocab conf dd words))"
    using a by (simp add: vocab_ok_def with_vocab_def vocab_inv_after)
  have "words_agree (idxs dd) (Words dd)" using a by (simp add: vocab_ok_def)
  then have "words_agree (fst (vocab_after conf words (idxs dd, WordCount dd))) (Words dd)"
    by (rule words_agree_mono) (rule vocab_after_mono)
  then show ?thesis using 1 by (simp add: vocab_ok_def with_vocab_def)
qed

lemma vocab_ok_same: "same_vocab dd dd' \<Longrightarrow> vocab_ok dd \<Longrightarrow> vocab_ok dd'"
  by (simp add: same_vocab_def vocab_ok_def)

lemma count_docs_frame: "same_vocab dd (left_state (count_docs ls dd))"
proof (induction ls arbitrary: dd)
  case Nil
  show ?case by (simp add: left_state_def same_vocab_def)
next
  case (Cons l ls)
  let ?dd1 = "dd\<lparr>LabelDocCount := inc_at l (LabelDocCount dd)\<rparr>"
  show ?case
  proof (cases "in_range (LabelDocCount dd) l")
    case True
    then have "count_docs (l # ls) dd = count_docs ls ?dd1" unfolding inc_at_def by simp
    moreover have "same_vocab ?dd1 (left_state (count_docs ls ?dd1))" by (rule Cons.IH)
    ultimately show ?thesis by (simp add: same_vocab_def)
  next
    case False
    then show ?thesis by (simp add: left_state_def same_vocab_def)
  qed
qed

lemma Add_vocab_frame:
  "same_vocab (with_vocab conf dd words) (left_state (Add conf ro dd docid words labels))"
proof -
  let ?fw = "tally (ids_of conf words (idxs dd, WordCount dd)) Map.empty"
  let ?dd2 = "(with_vocab conf dd words)\<lparr>DocCount := DocCount dd + 1\<rparr>"
  let ?res = "count_words ?fw labels (freq_keys ro ?fw) ?dd2"
  have A: "Add conf ro dd docid words labels =
      (case ?res of Inl e \<Rightarrow> Inl e | Inr dd3 \<Rightarrow> count_docs labels dd3)"
    by (simp add: Add_def add_tokens_eq with_vocab_def)
  have fr: "counts_only ?dd2 (left_state ?res)" by (rule count_words_frame)
  then have s: "same_vocab (with_vocab conf dd words) (left_state ?res)"
    by (simp add: counts_only_def same_vocab_def)
  show ?thesis
  proof (cases ?res)
    case (Inl e)
    then have "left_state (Add conf ro dd docid words labels) = left_state ?res"
      by (simp add: A)
    then show ?thesis using s by simp
  next
    case (Inr dd3)
    have "same_vocab dd3 (left_state (count_docs labels dd3))" by (rule count_docs_frame)
    moreover have "same_vocab (with_vocab conf dd words) dd3"
      using s Inr by (simp add: left_state_def)
    moreover have "left_state (Add conf ro dd docid words labels)
        = left_state (count_docs labels dd3)" using Inr by (simp add: A)
    ultimately show ?thesis by (simp add: same_vocab_def)
  qed
qed

lemma Predict_vocab_frame:
  "same_vocab (with_vocab conf dd words)
     (left_state (case Predict fo conf ro dd words of Inl e \<Rightarrow> Inl e | Inr (dd1, r, pld) \<Rightarrow> Inr dd1))"
proof -
  let ?P = "Predict fo conf ro dd words"
  show ?thesis
  proof (cases ?P)
    case (Inl e)
    obtain p d where e: "e = (p, d)" by (cases e)
    then have "same_but_PL (with_vocab conf dd words) d"
      using Inl Predict_frame [of fo conf ro dd words p d] by simp
    then show ?thesis using Inl e by (simp add: left_state_def same_but_PL_def same_vocab_def)
  next
    case (Inr x)
    obtain d r pld where x: "x = (d, r, pld)" by (cases x)
    then have "same_but_PL (with_vocab conf dd words) d"
      using Inr Predict_frame [of fo conf ro dd words _ d r pld] by simp
    then show ?thesis using Inr x by (simp add: left_state_def same_but_PL_def same_vocab_def)
  qed
qed

lemma length_written [simp]: "length (written m ks ws) = length ws"
  unfolding written_def by (induction ks arbitrary: ws) simp_all

lemma written_Cons: "written m (k # ks) ws = written m ks (ws[nat (the (m k)) := k])"
  by (simp add: written_def)

lemma write_words_ok:
  "\<forall>w \<in> set ks. \<exists>j. m w = Some j \<and> in_range (Words dd) j \<Longrightarrow>
   write_words m ks dd = Inr (dd\<lparr>Words := written m ks (Words dd)\<rparr>)"
proof (induction ks arbitrary: dd)
  case Nil
  show ?case by (simp add: written_def)
next
  case (Cons k ks)
  obtain j where j: "m k = Some j" "in_range (Words dd) j" using Cons.prems by auto
  let ?dd1 = "dd\<lparr>Words := (Words dd)[nat j := k]\<rparr>"
  have "\<forall>w \<in> set ks. \<exists>j. m w = Some j \<and> in_range (Words ?dd1) j" using Cons.prems by simp
  then have "write_words m ks ?dd1 = Inr (?dd1\<lparr>Words := written m ks (Words ?dd1)\<rparr>)"
    by (rule Cons.IH)
  then show ?case using j by (simp add: written_Cons)
qed

lemma written_other:
  assumes "\<forall>w \<in> set ks. \<exists>j. m w = Some j \<and> 0 \<le> j \<and> j \<noteq> i" and "0 \<le> i"
  shows "written m ks ws ! nat i = ws ! nat i"
  using assms(1)
proof (induction ks arbitrary: ws)
  case Nil
  show ?case by (simp add: written_def)
next
  case (Cons k ks)
  obtain j where j: "m k = Some j" "0 \<le> j" "j \<noteq> i" using Cons.prems by auto
  then have "nat j \<noteq> nat i" using assms(2) by simp
  then have "(ws[nat j := k]) ! nat i = ws ! nat i" by simp
  moreover have "written m ks (ws[nat j := k]) ! nat i = (ws[nat j := k]) ! nat i"
    using Cons.prems by (intro Cons.IH) simp
  ultimately show ?case using j(1) by (simp add: written_Cons)
qed

lemma written_nth:
  assumes "distinct ks" and "inj_on m (set ks)"
    and "\<forall>w \<in> set ks. \<exists>j. m w = Some j \<and> 0 \<le> j \<and> nat j < length ws"
    and "w \<in> set ks" and "m w = Some i"
  shows "written m ks ws ! nat i = w"
  using assms(1,2,3,4)
proof (induction ks arbitrary: ws)
  case Nil
  then show ?case by simp
next
  case (Cons k ks)
  obtain j where j: "m k = Some j" "0 \<le> j" "nat j < length ws" using Cons.prems(3) by auto
  have rest: "\<forall>v \<in> set ks. \<exists>j. m v = Some j \<and> 0 \<le> j \<and> nat j < length (ws[nat j := k])"
    using Cons.prems(3) by simp
  have i0: "0 \<le> i" using Cons.prems(3,4) assms(5) by fastforce
  show ?case
  proof (cases "k = w")
    case True
    then have ji: "j = i" using j(1) assms(5) by simp
    have "\<forall>v \<in> set ks. \<exists>j'. m v = Some j' \<and> 0 \<le> j' \<and> j' \<noteq> i"
    proof
      fix v assume v: "v \<in> set ks"
      then obtain j' where j': "m v = Some j'" "0 \<le> j'" using Cons.prems(3) by auto
      have "v \<noteq> w" using v True Cons.prems(1) by auto
      moreover have "v \<in> set (k # ks)" "w \<in> set (k # ks)" using v True by simp_all
      ultimately have "m v \<noteq> m w" using inj_onD [OF Cons.prems(2), of v w] by blast
      then have "j' \<noteq> i" using j'(1) assms(5) by auto
      then show "\<exists>j'. m v = Some j' \<and> 0 \<le> j' \<and> j' \<noteq> i" using j' by blast
    qed
    then have "written m ks (ws[nat j := k]) ! nat i = (ws[nat j := k]) ! nat i"
      using i0 by (rule written_other)
    then show ?thesis using j True ji by (simp add: written_Cons)
  next
    case False
    then have w: "w \<in> set ks" using Cons.prems(4) by simp
    have d: "distinct ks" using Cons.prems(1) by simp
    have inj: "inj_on m (set ks)" using Cons.prems(2) by (simp add: inj_on_def)
    have "written m ks (ws[nat j := k]) ! nat i = w"
      using d inj _ w
    proof (rule Cons.IH)
      show "\<forall>w \<in> set ks. \<exists>j'. m w = Some j' \<and> 0 \<le> j' \<and> nat j' < length (ws[nat j := k])"
        using Cons.prems(3) by simp
    qed
    then show ?thesis using j(1) by (simp add: written_Cons)
  qed
qed

lemma vocab_inv_onto:
  assumes "vocab_inv m n" and "0 \<le> i" and "i < n"
  shows "\<exists>w. m w = Some i"
proof -
  have f: "finite (dom m)" and c: "n = int (card (dom m))" and inj: "inj_on m (dom m)"
    and r: "\<And>v j. m v = Some j \<Longrightarrow> 0 \<le> j \<and> j < n"
    using assms(1) by (auto simp: vocab_inv_def)
  let ?g = "\<lambda>w. nat (the (m w))"
  have "inj_on ?g (dom m)"
  proof (rule inj_onI)
    fix x y assume x: "x \<in> dom m" and y: "y \<in> dom m" and e: "?g x = ?g y"
    obtain a b where ab: "m x = Some a" "m y = Some b" using x y by auto
    then have "0 \<le> a" "0 \<le> b" using r by fastforce+
    then have "a = b" using e ab by simp
    then have "m x = m y" using ab by simp
    then show "x = y" using inj x y by (auto dest: inj_onD)
  qed
  then have "card (?g ` dom m) = card (dom m)" by (rule card_image)
  moreover have "?g ` dom m \<subseteq> {0..<nat n}"
  proof
    fix k assume "k \<in> ?g ` dom m"
    then obtain w a where "m w = Some a" "k = nat a" by auto
    then show "k \<in> {0..<nat n}" using r [of w a] by auto
  qed
  moreover have "card {0..<nat n} = card (dom m)" using c by simp
  ultimately have "?g ` dom m = {0..<nat n}" by (intro card_subset_eq) simp_all
  moreover have "nat i \<in> {0..<nat n}" using assms(2,3) by simp
  ultimately have "nat i \<in> ?g ` dom m" by simp
  then obtain w where w: "w \<in> dom m" "nat i = nat (the (m w))" by (rule imageE)
  then obtain a where a: "m w = Some a" by auto
  then have "0 \<le> a" using r by fastforce
  then have "a = i" using w(2) a assms(2) by simp
  then show ?thesis using a by blast
qed

lemma valid_order_idxs_keys:
  "valid_order ro \<Longrightarrow> finite (dom m) \<Longrightarrow>
   distinct (idxs_keys ro m) \<and> set (idxs_keys ro m) = dom m"
  by (simp add: valid_order_def enumerates_def)

lemma updateWords_ok:
  assumes "valid_order ro" and "vocab_inv (idxs dd) (WordCount dd)"
  shows "\<exists>ws. updateWords ro dd = Inr (dd\<lparr>Words := ws\<rparr>) \<and>
           length ws = card (dom (idxs dd)) \<and> words_agree (idxs dd) ws"
proof -
  let ?m = "idxs dd"
  let ?n = "card (dom ?m)"
  let ?ks = "idxs_keys ro ?m"
  let ?ws0 = "replicate ?n ([]::string)"
  let ?dd0 = "dd\<lparr>Words := ?ws0\<rparr>"
  have f: "finite (dom ?m)" and c: "WordCount dd = int ?n" and inj: "inj_on ?m (dom ?m)"
    and r: "\<And>v j. ?m v = Some j \<Longrightarrow> 0 \<le> j \<and> j < WordCount dd"
    using assms(2) by (auto simp: vocab_inv_def)
  have ks: "distinct ?ks" "set ?ks = dom ?m"
    using valid_order_idxs_keys [OF assms(1) f] by simp_all
  have rng: "\<forall>w \<in> set ?ks. \<exists>j. ?m w = Some j \<and> 0 \<le> j \<and> nat j < length ?ws0"
  proof
    fix w assume "w \<in> set ?ks"
    then obtain j where j: "?m w = Some j" using ks(2) by auto
    then have "0 \<le> j \<and> j < int ?n" using r c by fastforce
    then show "\<exists>j. ?m w = Some j \<and> 0 \<le> j \<and> nat j < length ?ws0" using j by auto
  qed
  then have "\<forall>w \<in> set ?ks. \<exists>j. ?m w = Some j \<and> in_range (Words ?dd0) j"
    by (fastforce simp: in_range_def)
  then have "write_words ?m ?ks ?dd0 = Inr (?dd0\<lparr>Words := written ?m ?ks (Words ?dd0)\<rparr>)"
    by (rule write_words_ok)
  then have 1: "updateWords ro dd = Inr (dd\<lparr>Words := written ?m ?ks ?ws0\<rparr>)"
    by (simp add: updateWords_def)
  have 2: "length (written ?m ?ks ?ws0) = ?n" by simp
  have 3: "words_agree ?m (written ?m ?ks ?ws0)"
    unfolding words_agree_def
  proof (intro allI impI)
    fix i assume "i < length (written ?m ?ks ?ws0)"
    then have i: "0 \<le> int i" "int i < WordCount dd" using c by simp_all
    obtain w where w: "?m w = Some (int i)" using vocab_inv_onto [OF assms(2) i] by blast
    then have "w \<in> set ?ks" using ks(2) by auto
    then have "written ?m ?ks ?ws0 ! nat (int i) = w"
      using ks(1) inj rng w by (intro written_nth) (simp_all add: ks(2))
    then show "?m (written ?m ?ks ?ws0 ! i) = Some (int i)" using w by simp
  qed
  show ?thesis using 1 2 3 by blast
qed

lemma vocab_step:
  assumes "valid_order ro" and "vocab_ok dd"
  shows "vocab_ok (left_state (step fo conf ro dd x)) \<and>
         (\<forall>w i. idxs dd w = Some i \<longrightarrow> idxs (left_state (step fo conf ro dd x)) w = Some i)"
proof (cases x)
  case (OpAdd docid words labels)
  let ?dd' = "left_state (Add conf ro dd docid words labels)"
  have s: "same_vocab (with_vocab conf dd words) ?dd'" by (rule Add_vocab_frame)
  have "vocab_ok (with_vocab conf dd words)" using assms(2) by (rule vocab_ok_with_vocab)
  with s have 1: "vocab_ok ?dd'" by (rule vocab_ok_same)
  have "idxs ?dd' = fst (vocab_after conf words (idxs dd, WordCount dd))"
    using s by (simp add: same_vocab_def with_vocab_def)
  then have 2: "\<forall>w i. idxs dd w = Some i \<longrightarrow> idxs ?dd' w = Some i"
    by (simp add: vocab_after_mono)
  show ?thesis using 1 2 OpAdd by (simp add: step_def)
next
  case (OpPredict words)
  let ?dd' = "left_state (case Predict fo conf ro dd words of
      Inl e \<Rightarrow> Inl e | Inr (dd1, r, pld) \<Rightarrow> Inr dd1)"
  have s: "same_vocab (with_vocab conf dd words) ?dd'" by (rule Predict_vocab_frame)
  have "vocab_ok (with_vocab conf dd words)" using assms(2) by (rule vocab_ok_with_vocab)
  with s have 1: "vocab_ok ?dd'" by (rule vocab_ok_same)
  have "idxs ?dd' = fst (vocab_after conf words (idxs dd, WordCount dd))"
    using s by (simp add: same_vocab_def with_vocab_def)
  then have 2: "\<forall>w i. idxs dd w = Some i \<longrightarrow> idxs ?dd' w = Some i"
    by (simp add: vocab_after_mono)
  show ?thesis using 1 2 OpPredict by (simp add: step_def)
next
  case OpSave
  have v: "vocab_inv (idxs dd) (WordCount dd)" using assms(2) by (simp add: vocab_ok_def)
  obtain ws where ws: "updateWords ro dd = Inr (dd\<lparr>Words := ws\<rparr>)" "words_agree (idxs dd) ws"
    using updateWords_ok [OF assms(1) v] by blast
  then show ?thesis using OpSave v by (simp add: step_def Save_def left_state_def vocab_ok_def)
qed

lemma vocab_after_ops:
  assumes "valid_order ro"
  shows "vocab_ok dd \<Longrightarrow>
         vocab_ok (after_ops fo conf ro dd ops) \<and>
         (\<forall>w i. idxs dd w = Some i \<longrightarrow> idxs (after_ops fo conf ro dd ops) w = Some i)"
proof (induction ops arbitrary: dd)
  case Nil
  then show ?case by (simp add: after_ops_def)
next
  case (Cons x xs)
  let ?dd1 = "left_state (step fo conf ro dd x)"
  have 1: "vocab_ok ?dd1" "\<forall>w i. idxs dd w = Some i \<longrightarrow> idxs ?dd1 w = Some i"
    using vocab_step [OF assms Cons.prems, of fo conf x] by simp_all
  have 2: "vocab_ok (after_ops fo conf ro ?dd1 xs)"
    "\<forall>w i. idxs ?dd1 w = Some i \<longrightarrow> idxs (after_ops fo conf ro ?dd1 xs) w = Some i"
    using Cons.IH [OF 1(1)] by simp_all
  have "after_ops fo conf ro dd (x # xs) = after_ops fo conf ro ?dd1 xs"
    by (simp add: after_ops_def)
  then show ?case using 1 2 by simp
qed

lemma vocab_ok_New: "vocab_ok (New fo note names)"
  by (simp add: vocab_ok_def vocab_inv_def words_agree_def New_fields)

lemma run_after_ops: "run fo conf ro dd ops = Inr dd' \<Longrightarrow> after_ops fo conf ro dd ops = dd'"
proof (induction ops arbitrary: dd)
  case Nil
  then show ?case by (simp add: after_ops_def)
next
  case (Cons x xs)
  show ?case
  proof (cases "step fo conf ro dd x")
    case (Inl e)
    then show ?thesis using Cons.prems by simp
  next
    case (Inr dd1)
    then have "run fo conf ro dd1 xs = Inr dd'" using Cons.prems by simp
    then have "after_ops fo conf ro dd1 xs = dd'" by (rule Cons.IH)
    then show ?thesis using Inr by (simp add: after_ops_def left_state_def)
  qed
qed

text \<open>
  C7. Let \<open>dd\<close> be the corpus after any sequence of \<open>Add\<close>, \<open>Predict\<close> and \<open>Save\<close> from
  \<open>New\<close> (each applied to what its predecessor left, also after a panic), and \<open>dd'\<close> the
  corpus after any further such sequence. Then \<open>idxs[Words[i]] = i\<close> for every index of
  \<open>Words\<close>; a word that has an ID in \<open>dd\<close> has the same ID in \<open>dd'\<close>; no two words share
  an ID; in the token loop every token gets the ID that \<open>idxs\<close> holds for it
  afterwards, so equal tokens get equal IDs; and \<open>Save\<close> returns on \<open>dd\<close> with a table of
  all known words that agrees with \<open>idxs\<close>.
\<close>

theorem vocabulary_consistent:
  assumes "valid_order ro"
    and "dd = after_ops fo conf ro (New fo note labelNames) ops"
    and "dd' = after_ops fo conf ro dd ops'"
  shows "(\<forall>i < length (Words dd). idxs dd (Words dd ! i) = Some (int i)) \<and>
      (\<forall>w i. idxs dd w = Some i \<longrightarrow> idxs dd' w = Some i) \<and>
      inj_on (idxs dd) (dom (idxs dd)) \<and>
      (\<forall>words dd1 seq freqWord.
         add_tokens conf words (dd, [], Map.empty) = (dd1, seq, freqWord) \<longrightarrow>
         seq = map (\<lambda>w. the (idxs dd1 w)) (filter (\<lambda>w. \<not> skipped conf w) words)) \<and>
      (\<exists>dd2. Save ro dd = Inr dd2 \<and> idxs dd2 = idxs dd \<and>
         length (Words dd2) = card (dom (idxs dd)) \<and>
         (\<forall>i < length (Words dd2). idxs dd2 (Words dd2 ! i) = Some (int i)))"
proof -
  have "vocab_ok (after_ops fo conf ro (New fo note labelNames) ops)"
    using vocab_after_ops [OF assms(1) vocab_ok_New] by blast
  then have ok: "vocab_ok dd" by (simp only: assms(2))
  have 1: "\<forall>i < length (Words dd). idxs dd (Words dd ! i) = Some (int i)"
    using ok by (simp add: vocab_ok_def words_agree_def)
  have "\<forall>w i. idxs dd w = Some i \<longrightarrow> idxs (after_ops fo conf ro dd ops') w = Some i"
    using vocab_after_ops [OF assms(1) ok] by blast
  then have 2: "\<forall>w i. idxs dd w = Some i \<longrightarrow> idxs dd' w = Some i"
    by (simp only: assms(3))
  have v: "vocab_inv (idxs dd) (WordCount dd)" using ok by (simp add: vocab_ok_def)
  then have 3: "inj_on (idxs dd) (dom (idxs dd))" by (simp add: vocab_inv_def)
  have 4: "\<forall>words dd1 seq freqWord.
         add_tokens conf words (dd, [], Map.empty) = (dd1, seq, freqWord) \<longrightarrow>
         seq = map (\<lambda>w. the (idxs dd1 w)) (filter (\<lambda>w. \<not> skipped conf w) words)"
    by (auto simp: add_tokens_eq ids_of_final)
  obtain ws where ws: "updateWords ro dd = Inr (dd\<lparr>Words := ws\<rparr>)"
    "length ws = card (dom (idxs dd))" "words_agree (idxs dd) ws"
    using updateWords_ok [OF assms(1) v] by blast
  then have 5: "\<exists>dd2. Save ro dd = Inr dd2 \<and> idxs dd2 = idxs dd \<and>
         length (Words dd2) = card (dom (idxs dd)) \<and>
         (\<forall>i < length (Words dd2). idxs dd2 (Words dd2 ! i) = Some (int i))"
    by (simp add: Save_def words_agree_def)
  show ?thesis using 1 2 3 4 5 by blast
qed

lemma Save_example:
  "Save sorted_order trained = Inr (trained\<lparr>Words := [''buy'', ''now'']\<rparr>)"
  by (simp add: Save_def updateWords_def sorted_order_def trained_def spam_ham_eq in_range_def)

lemma step_Predict_state:
  assumes "well_formed dd" and "consistent dd"
  shows "left_state (step fo conf ro dd (OpPredict words))
           = with_priors fo (with_vocab conf dd words)"
proof -
  obtain r where "Predict fo conf ro dd words
      = Inr (with_priors fo (with_vocab conf dd words), r,
             posterior fo ro (with_priors fo (with_vocab conf dd words)) (doc_freq conf dd words))"
    using Predict_ok [OF assms, of fo conf ro words] by blast
  then show ?thesis by (simp add: step_def left_state_def)
qed

lemma first_run_eq:
  "first_run = with_priors ideal_ops
     (with_vocab conf0 (trained\<lparr>Words := [''buy'', ''now'']\<rparr>) [''cheap'', ''buy''])"
proof -
  have w: "well_formed (trained\<lparr>Words := [''buy'', ''now'']\<rparr>)"
    "consistent (trained\<lparr>Words := [''buy'', ''now'']\<rparr>)"
    using trained_facts(1,2) by (simp_all add: well_formed_def consistent_def)
  have 1: "left_state (step ideal_ops conf0 sorted_order (New ideal_ops ''note'' [''spam'', ''ham''])
      (OpAdd ''d1'' [''buy'', ''now'', ''buy''] [0])) = trained"
    using Add_example by (simp add: step_def left_state_def spam_ham_def)
  have 2: "left_state (step ideal_ops conf0 sorted_order trained OpSave)
      = trained\<lparr>Words := [''buy'', ''now'']\<rparr>"
    by (simp add: step_def left_state_def Save_example)
  show ?thesis
    by (simp add: first_run_def after_ops_def 1 2 step_Predict_state [OF w])
qed

lemma first_run_facts:
  "Words first_run = [''buy'', ''now'']" "idxs first_run ''cheap'' = Some 2"
  by (simp_all add: first_run_eq with_priors_def with_vocab_def trained_def spam_ham_eq
        not_skipped_conf0)

lemma first_run_vocab:
  "idxs first_run = [''buy'' \<mapsto> 0, ''now'' \<mapsto> 1, ''cheap'' \<mapsto> 2]" "WordCount first_run = 3"
  by (simp_all add: first_run_eq with_priors_def with_vocab_def trained_def spam_ham_eq
        not_skipped_conf0)

lemma add_tokens_first_run:
  "\<exists>dd1 fw. add_tokens conf0 [''cheap'', ''sale'', ''cheap'', ''buy''] (first_run, [], Map.empty)
     = (dd1, [2, 3, 2, 0], fw)"
  by (simp add: add_tokens_eq first_run_vocab not_skipped_conf0)

theorem vocabulary_consistent_witness:
  "valid_order sorted_order \<and>
   Words first_run = [''buy'', ''now''] \<and>
   idxs first_run (Words first_run ! 0) = Some 0 \<and>
   idxs first_run (Words first_run ! 1) = Some 1 \<and>
   idxs first_run ''cheap'' = Some 2 \<and> idxs second_run ''cheap'' = Some 2 \<and>
   (\<exists>dd1 fw. add_tokens conf0 [''cheap'', ''sale'', ''cheap'', ''buy''] (first_run, [], Map.empty)
       = (dd1, [2, 3, 2, 0], fw) \<and>
      [2, 3, 2, 0] = map (\<lambda>w. the (idxs dd1 w)) [''cheap'', ''sale'', ''cheap'', ''buy'']) \<and>
   (\<exists>dd2. Save sorted_order first_run = Inr dd2 \<and> length (Words dd2) = card (dom (idxs first_run)))"
proof -
  note v = valid_sorted_order
  from vocabulary_consistent [OF v first_run_def second_run_def]
  have a: "\<forall>i < length (Words first_run). idxs first_run (Words first_run ! i) = Some (int i)"
    and b: "\<forall>w i. idxs first_run w = Some i \<longrightarrow> idxs second_run w = Some i"
    and t: "\<forall>words dd1 seq freqWord.
         add_tokens conf0 words (first_run, [], Map.empty) = (dd1, seq, freqWord) \<longrightarrow>
         seq = map (\<lambda>w. the (idxs dd1 w)) (filter (\<lambda>w. \<not> skipped conf0 w) words)"
    and c: "\<exists>dd2. Save sorted_order first_run = Inr dd2 \<and> idxs dd2 = idxs first_run \<and>
         length (Words dd2) = card (dom (idxs first_run)) \<and>
         (\<forall>i < length (Words dd2). idxs dd2 (Words dd2 ! i) = Some (int i))"
    by blast+
  have l: "length (Words first_run) = 2" by (simp add: first_run_facts)
  have 0: "idxs first_run (Words first_run ! 0) = Some 0" using a l by force
  have 1: "idxs first_run (Words first_run ! 1) = Some 1" using a l by force
  have 2: "idxs second_run ''cheap'' = Some 2" using b first_run_facts(2) by blast
  have 3: "\<exists>dd2. Save sorted_order first_run = Inr dd2 \<and>
      length (Words dd2) = card (dom (idxs first_run))" using c by blast
  obtain dd1 fw where e: "add_tokens conf0 [''cheap'', ''sale'', ''cheap'', ''buy'']
      (first_run, [], Map.empty) = (dd1, [2, 3, 2, 0], fw)"
    using add_tokens_first_run by blast
  then have "[2, 3, 2, 0] = map (\<lambda>w. the (idxs dd1 w))
      (filter (\<lambda>w. \<not> skipped conf0 w) [''cheap'', ''sale'', ''cheap'', ''buy''])"
    using t by blast
  then have "[2, 3, 2, 0] = map (\<lambda>w. the (idxs dd1 w)) [''cheap'', ''sale'', ''cheap'', ''buy'']"
    by (simp add: not_skipped_conf0)
  with e have 4: "\<exists>dd1 fw. add_tokens conf0 [''cheap'', ''sale'', ''cheap'', ''buy'']
       (first_run, [], Map.empty) = (dd1, [2, 3, 2, 0], fw) \<and>
      [2, 3, 2, 0] = map (\<lambda>w. the (idxs dd1 w)) [''cheap'', ''sale'', ''cheap'', ''buy'']"
    by (intro exI conjI)
  show ?thesis
    by (intro conjI) (rule v first_run_facts 0 1 2 3 4)+
qed


end
